theory Spec2Isabelle
  imports Main "HOL-Library.Word"
begin

section \<open>The open-addressing hash table of basic\_hash\_table.c\<close>

text \<open>
  The table of \<^verbatim>\<open>struct basic_hash_table\<close> keeps three parallel regions (keys, values and
  one flag byte per slot), the number \<open>reserved\<close> of slots and the counter \<open>load\<close>.
  The C fields of type \<^verbatim>\<open>int\<close> are never negative and are natural numbers here; the
  model is the code as long as no \<^verbatim>\<open>int\<close> computation overflows and \<^verbatim>\<open>malloc\<close>
  succeeds.  \<^verbatim>\<open>hash_t\<close> is \<^verbatim>\<open>size_t\<close>, a 64-bit word whose addition wraps around.
\<close>

subsection \<open>Data\<close>

datatype elem_flags = HASH_ELEM_EMPTY | HASH_ELEM_USED | HASH_ELEM_DELETED

text \<open>
  The element callbacks \<^verbatim>\<open>assign_key\<close> and \<^verbatim>\<open>assign_value\<close> are called as
  \<^verbatim>\<open>assign(addr, new_elem, old_elem, user_data)\<close>.  Every call is recorded: where
  \<^verbatim>\<open>addr\<close> points (a slot of the table or a buffer of the caller), and the elements
  \<^verbatim>\<open>new_elem\<close> and \<^verbatim>\<open>old_elem\<close> point to (\<open>None\<close> for \<^verbatim>\<open>NULL\<close>).
\<close>

datatype target = Slot nat | Caller

datatype ('k, 'v) call =
    Assign_key target "'k option" "'k option"
  | Assign_value target "'v option" "'v option"

record ('k, 'v) basic_hash_table =
  reserved :: nat
  load :: nat
  keys :: "'k list"
  vals :: "'v list"
  flags :: "elem_flags list"
  calls :: "('k, 'v) call list"

text \<open>
  The function pointers of the struct never change after \<^verbatim>\<open>basic_hash_table_new\<close>; they
  are passed beside the table.  \<open>junk_key\<close> and \<open>junk_value\<close> stand for the unspecified
  contents of a cell that \<^verbatim>\<open>malloc\<close> has just returned.
\<close>

record ('k, 'v) policy =
  hash :: "'k \<Rightarrow> 64 word"
  compar :: "'k \<Rightarrow> 'k \<Rightarrow> int"
  junk_key :: "'k"
  junk_value :: "'v"

text \<open>
  The effect of a callback on the cell at \<^verbatim>\<open>addr\<close> is that of \<^verbatim>\<open>assign_short\<close> and
  \<^verbatim>\<open>assign_long\<close>: \<^verbatim>\<open>if (new_elem) *addr = *new_elem;\<close>
\<close>

definition assign_elem :: "'a \<Rightarrow> 'a option \<Rightarrow> 'a option \<Rightarrow> 'a" where
  "assign_elem cell new_elem old_elem = (case new_elem of Some n \<Rightarrow> n | None \<Rightarrow> cell)"

datatype 'a outcome = Returns 'a | Assert_fails | Out_of_fuel

definition bind_outcome :: "'a outcome \<Rightarrow> ('a \<Rightarrow> 'b outcome) \<Rightarrow> 'b outcome" where
  "bind_outcome m f = (case m of Returns x \<Rightarrow> f x | Assert_fails \<Rightarrow> Assert_fails
     | Out_of_fuel \<Rightarrow> Out_of_fuel)"

subsection \<open>Growth policy\<close>

definition primes :: "nat list" where
  "primes = [13, 17, 29, 47, 61, 97, 157, 251, 349]"

text \<open>The loop \<^verbatim>\<open>for(i = i - 1; i >= 0; --i)\<close> of \<^verbatim>\<open>next_prime_size\<close>, entered at \<open>i\<close>.\<close>

fun next_prime_scan :: "nat \<Rightarrow> nat \<Rightarrow> nat" where
  "next_prime_scan old 0 =
     (if old \<ge> primes ! 0 then primes ! 1 else (old * 2) - (old div 2))"
| "next_prime_scan old (Suc i) =
     (if old \<ge> primes ! Suc i then primes ! (Suc i + 1) else next_prime_scan old i)"

definition next_prime_size :: "nat \<Rightarrow> nat" where
  "next_prime_size old =
     (if old < primes ! 0 then primes ! 0
      else let i = length primes - 1 in
        if old \<ge> primes ! i then (old * 2) - (old div 2)
        else next_prime_scan old (i - 1))"

subsection \<open>Probing\<close>

text \<open>
  \<^verbatim>\<open>hash_t index = (hash + i * i) % reserved;\<close>  The product is an \<^verbatim>\<open>int\<close>, the sum is
  taken in \<^verbatim>\<open>size_t\<close>.
\<close>

definition probe_index :: "64 word \<Rightarrow> nat \<Rightarrow> nat \<Rightarrow> nat" where
  "probe_index h i r = unat (h + word_of_nat (i * i)) mod r"

text \<open>
  The \<^verbatim>\<open>for\<close> loop of \<^verbatim>\<open>basic_hash_table_get_inner\<close> from \<open>i\<close> on: the index of the
  slot it returns 1 at, or \<open>None\<close> where it returns 0.
\<close>

function get_scan :: "('k, 'v) policy \<Rightarrow> ('k, 'v) basic_hash_table \<Rightarrow> 'k \<Rightarrow> nat \<Rightarrow> nat option" where
  "get_scan pol t key i =
     (if i < reserved t then
        let index = probe_index (hash pol key) i (reserved t) in
        if flags t ! index = HASH_ELEM_USED \<and> compar pol key (keys t ! index) = 0
        then Some index
        else if flags t ! index = HASH_ELEM_EMPTY then None
        else get_scan pol t key (i + 1)
      else None)"
  by pat_completeness auto
termination
  by (relation "measure (\<lambda>(pol, t, key, i). reserved t - i)") auto

declare get_scan.simps [simp del]

text \<open>
  \<^verbatim>\<open>basic_hash_table_get_inner(table, key, value_out, index_out)\<close>.  The buffer
  \<^verbatim>\<open>value_out\<close> is \<open>None\<close> for \<^verbatim>\<open>NULL\<close> and \<open>Some b\<close> for a buffer holding \<open>b\<close>.  The
  result is the returned \<^verbatim>\<open>int\<close>, the buffer afterwards, what was written through
  \<^verbatim>\<open>index_out\<close> (if anything), and the table, whose only change is the record of calls.
\<close>

definition basic_hash_table_get_inner ::
  "('k, 'v) policy \<Rightarrow> ('k, 'v) basic_hash_table \<Rightarrow> 'k \<Rightarrow> 'v option
     \<Rightarrow> int \<times> 'v option \<times> nat option \<times> ('k, 'v) basic_hash_table" where
  "basic_hash_table_get_inner pol t key value_out =
     (case get_scan pol t key 0 of
        Some index \<Rightarrow>
          (case value_out of
             Some b \<Rightarrow>
               let tv = vals t ! index in
               (1, Some (assign_elem b (Some tv) (Some tv)), Some index,
                t\<lparr>calls := calls t @ [Assign_value Caller (Some tv) (Some tv)]\<rparr>)
           | None \<Rightarrow> (1, None, Some index, t))
      | None \<Rightarrow> (0, value_out, None, t))"

definition basic_hash_table_get ::
  "('k, 'v) policy \<Rightarrow> ('k, 'v) basic_hash_table \<Rightarrow> 'k \<Rightarrow> 'v option
     \<Rightarrow> int \<times> 'v option \<times> ('k, 'v) basic_hash_table" where
  "basic_hash_table_get pol t key value_out =
     (case basic_hash_table_get_inner pol t key value_out of
        (r, out, index_out, t') \<Rightarrow> (r, out, t'))"

definition basic_hash_table_remove ::
  "('k, 'v) policy \<Rightarrow> ('k, 'v) basic_hash_table \<Rightarrow> 'k \<Rightarrow> 'v option
     \<Rightarrow> int \<times> 'v option \<times> ('k, 'v) basic_hash_table" where
  "basic_hash_table_remove pol t key out =
     (case basic_hash_table_get_inner pol t key out of
        (removed, out', index_out, t1) \<Rightarrow>
          (case index_out of
             Some index \<Rightarrow>
               let old_k = keys t1 ! index; old_v = vals t1 ! index in
               (removed, out',
                t1\<lparr>flags := (flags t1)[index := HASH_ELEM_DELETED],
                   keys := (keys t1)[index := assign_elem old_k None (Some old_k)],
                   vals := (vals t1)[index := assign_elem old_v None (Some old_v)],
                   calls := calls t1 @ [Assign_key (Slot index) None (Some old_k),
                                        Assign_value (Slot index) None (Some old_v)]\<rparr>)
           | None \<Rightarrow> (removed, out', t1)))"

subsection \<open>Insertion and rehashing\<close>

text \<open>
  The \<^verbatim>\<open>for\<close> loop of \<^verbatim>\<open>basic_hash_table_set_inner\<close> from \<open>i\<close> on: the returned
  \<^verbatim>\<open>int\<close> and the table, or \<open>None\<close> when the loop ends without a \<^verbatim>\<open>return\<close>.
  \<open>place_fresh\<close> is the body of its first branch (an empty or deleted slot),
  \<open>replace_value\<close> that of its second (a used slot whose key compares equal).
\<close>

definition place_fresh ::
  "('k, 'v) basic_hash_table \<Rightarrow> 'k \<Rightarrow> 'v \<Rightarrow> bool \<Rightarrow> nat \<Rightarrow> ('k, 'v) basic_hash_table" where
  "place_fresh t key val reset index =
     (let old_key = (if reset then Some key else None);
          old_val = (if reset then Some val else None) in
      t\<lparr>keys := (keys t)[index := assign_elem (keys t ! index) (Some key) old_key],
        vals := (vals t)[index := assign_elem (vals t ! index) (Some val) old_val],
        flags := (flags t)[index := HASH_ELEM_USED],
        load := load t + 1,
        calls := calls t @ [Assign_key (Slot index) (Some key) old_key,
                            Assign_value (Slot index) (Some val) old_val]\<rparr>)"

definition replace_value ::
  "('k, 'v) basic_hash_table \<Rightarrow> 'v \<Rightarrow> nat \<Rightarrow> ('k, 'v) basic_hash_table" where
  "replace_value t val index =
     t\<lparr>flags := (flags t)[index := HASH_ELEM_USED],
       vals := (vals t)[index := assign_elem (vals t ! index) (Some val) (Some (vals t ! index))],
       calls := calls t @ [Assign_value (Slot index) (Some val) (Some (vals t ! index))]\<rparr>"

function set_scan ::
  "('k, 'v) policy \<Rightarrow> ('k, 'v) basic_hash_table \<Rightarrow> 'k \<Rightarrow> 'v \<Rightarrow> bool \<Rightarrow> nat
     \<Rightarrow> (int \<times> ('k, 'v) basic_hash_table) option" where
  "set_scan pol t key val reset i =
     (if i < reserved t then
        let index = probe_index (hash pol key) i (reserved t) in
        if flags t ! index = HASH_ELEM_EMPTY \<or> flags t ! index = HASH_ELEM_DELETED
        then Some (1, place_fresh t key val reset index)
        else if compar pol key (keys t ! index) = 0
        then Some (0, replace_value t val index)
        else set_scan pol t key val reset (i + 1)
      else None)"
  by pat_completeness auto
termination
  by (relation "measure (\<lambda>(pol, t, key, val, reset, i). reserved t - i)") auto

declare set_scan.simps [simp del]

text \<open>\<^verbatim>\<open>resize3\<close> and the three assignments after it in \<^verbatim>\<open>basic_hash_table_rehash\<close>.\<close>

definition fresh_storage ::
  "('k, 'v) policy \<Rightarrow> ('k, 'v) basic_hash_table \<Rightarrow> nat \<Rightarrow> ('k, 'v) basic_hash_table" where
  "fresh_storage pol t newsize =
     t\<lparr>keys := replicate newsize (junk_key pol),
       vals := replicate newsize (junk_value pol),
       flags := replicate newsize HASH_ELEM_EMPTY,
       load := 0,
       reserved := newsize\<rparr>"

text \<open>
  \<^verbatim>\<open>basic_hash_table_set_inner\<close> and \<^verbatim>\<open>basic_hash_table_rehash\<close> call each other, and
  the \<^verbatim>\<open>while(1)\<close> of the former has no bound in the code.  The rehash is written
  first, over the insertion \<open>ins\<close> it calls: \<open>rehash_loop\<close> is its \<^verbatim>\<open>for\<close> loop over
  the old regions \<open>old_k\<close>, \<open>old_v\<close>, \<open>old_f\<close>, from \<open>i\<close> on.  \<open>Assert_fails\<close> is the
  \<^verbatim>\<open>assert(!reset)\<close>.
\<close>

function rehash_loop ::
  "(('k, 'v) basic_hash_table \<Rightarrow> 'k \<Rightarrow> 'v \<Rightarrow> bool \<Rightarrow> (int \<times> ('k, 'v) basic_hash_table) outcome)
     \<Rightarrow> ('k, 'v) basic_hash_table \<Rightarrow> 'k list \<Rightarrow> 'v list \<Rightarrow> elem_flags list \<Rightarrow> nat \<Rightarrow> nat
     \<Rightarrow> ('k, 'v) basic_hash_table outcome" where
  "rehash_loop ins t old_k old_v old_f i oldsize =
     (if i < oldsize then
        if old_f ! i = HASH_ELEM_USED then
          bind_outcome (ins t (old_k ! i) (old_v ! i) True)
            (\<lambda>(r, t'). rehash_loop ins t' old_k old_v old_f (i + 1) oldsize)
        else rehash_loop ins t old_k old_v old_f (i + 1) oldsize
      else Returns t)"
  by pat_completeness auto
termination
  by (relation "measure (\<lambda>(ins, t, old_k, old_v, old_f, i, oldsize). oldsize - i)") auto

declare rehash_loop.simps [simp del]

definition rehash_with ::
  "(('k, 'v) basic_hash_table \<Rightarrow> 'k \<Rightarrow> 'v \<Rightarrow> bool \<Rightarrow> (int \<times> ('k, 'v) basic_hash_table) outcome)
     \<Rightarrow> ('k, 'v) policy \<Rightarrow> ('k, 'v) basic_hash_table \<Rightarrow> nat \<Rightarrow> nat
     \<Rightarrow> ('k, 'v) basic_hash_table outcome" where
  "rehash_with ins pol t oldsize newsize =
     rehash_loop ins (fresh_storage pol t newsize) (keys t) (vals t) (flags t) 0 oldsize"

text \<open>
  The first argument of \<open>set_from\<close> is fuel: one unit for every call of
  \<^verbatim>\<open>basic_hash_table_set_inner\<close> and for every round of its \<^verbatim>\<open>while(1)\<close>;
  \<open>Out_of_fuel\<close> is the answer of a run that needs more.  With \<open>entry\<close> the function is
  entered at its top, before the test of the load; without, at the head of the
  \<^verbatim>\<open>while(1)\<close>.
\<close>

primrec set_from ::
  "nat \<Rightarrow> bool \<Rightarrow> ('k, 'v) policy \<Rightarrow> ('k, 'v) basic_hash_table \<Rightarrow> 'k \<Rightarrow> 'v \<Rightarrow> bool
     \<Rightarrow> (int \<times> ('k, 'v) basic_hash_table) outcome" where
  "set_from 0 entry pol t key val reset = Out_of_fuel"
| "set_from (Suc n) entry pol t key val reset =
     (if entry \<and> load t > reserved t div 2 then
        if reset then Assert_fails
        else bind_outcome
               (rehash_with (set_from n True pol) pol t (reserved t)
                  (next_prime_size (reserved t)))
               (\<lambda>t'. set_from n False pol t' key val reset)
      else
        case set_scan pol t key val reset 0 of
          Some r \<Rightarrow> Returns r
        | None \<Rightarrow>
            bind_outcome
              (rehash_with (set_from n True pol) pol t (reserved t)
                 (next_prime_size (reserved t)))
              (\<lambda>t'. set_from n False pol t' key val reset))"

definition basic_hash_table_set_inner ::
  "nat \<Rightarrow> ('k, 'v) policy \<Rightarrow> ('k, 'v) basic_hash_table \<Rightarrow> 'k \<Rightarrow> 'v \<Rightarrow> bool
     \<Rightarrow> (int \<times> ('k, 'v) basic_hash_table) outcome" where
  "basic_hash_table_set_inner n pol = set_from n True pol"

definition basic_hash_table_rehash ::
  "nat \<Rightarrow> ('k, 'v) policy \<Rightarrow> ('k, 'v) basic_hash_table \<Rightarrow> nat \<Rightarrow> nat
     \<Rightarrow> ('k, 'v) basic_hash_table outcome" where
  "basic_hash_table_rehash n pol = rehash_with (basic_hash_table_set_inner n pol) pol"

definition basic_hash_table_set ::
  "nat \<Rightarrow> ('k, 'v) policy \<Rightarrow> ('k, 'v) basic_hash_table \<Rightarrow> 'k \<Rightarrow> 'v
     \<Rightarrow> (int \<times> ('k, 'v) basic_hash_table) outcome" where
  "basic_hash_table_set n pol t key val = basic_hash_table_set_inner n pol t key val False"

text \<open>
  \<^verbatim>\<open>basic_hash_table_new\<close>: the struct with both sizes 0 and no storage, rehashed from
  size 0 to \<^verbatim>\<open>primes[0]\<close>.
\<close>

definition basic_hash_table_new :: "nat \<Rightarrow> ('k, 'v) policy \<Rightarrow> ('k, 'v) basic_hash_table outcome" where
  "basic_hash_table_new n pol =
     basic_hash_table_rehash n pol
       \<lparr>reserved = 0, load = 0, keys = [], vals = [], flags = [], calls = []\<rparr> 0 (primes ! 0)"

subsection \<open>Iteration\<close>

definition basic_hash_table_begin :: "('k, 'v) basic_hash_table \<Rightarrow> nat" where
  "basic_hash_table_begin t = 0"

definition basic_hash_table_end :: "('k, 'v) basic_hash_table \<Rightarrow> nat" where
  "basic_hash_table_end t = reserved t"

text \<open>The \<^verbatim>\<open>while\<close> loop of \<^verbatim>\<open>basic_hash_table_next\<close>.\<close>

function next_skip :: "('k, 'v) basic_hash_table \<Rightarrow> nat \<Rightarrow> nat" where
  "next_skip t iter =
     (if iter < reserved t \<and> flags t ! iter \<noteq> HASH_ELEM_USED then next_skip t (iter + 1)
      else iter)"
  by pat_completeness auto
termination
  by (relation "measure (\<lambda>(t, iter). reserved t - iter)") auto

declare next_skip.simps [simp del]

text \<open>
  \<^verbatim>\<open>basic_hash_table_next(table, iter, key, value)\<close> with the two buffers of the caller:
  the returned iterator, the buffers afterwards and the table (its record of calls).
\<close>

definition basic_hash_table_next ::
  "('k, 'v) basic_hash_table \<Rightarrow> nat \<Rightarrow> 'k \<Rightarrow> 'v
     \<Rightarrow> nat \<times> 'k \<times> 'v \<times> ('k, 'v) basic_hash_table" where
  "basic_hash_table_next t iter key val =
     (let iter' = next_skip t iter in
      if iter' \<ge> reserved t then (reserved t, key, val, t)
      else
        let tk = keys t ! iter'; tv = vals t ! iter' in
        (iter' + 1, assign_elem key (Some tk) (Some tk), assign_elem val (Some tv) (Some tv),
         t\<lparr>calls := calls t @ [Assign_key Caller (Some tk) (Some tk),
                               Assign_value Caller (Some tv) (Some tv)]\<rparr>))"

subsection \<open>Notions used in the statements\<close>

definition wf_len :: "('k, 'v) basic_hash_table \<Rightarrow> bool" where
  "wf_len t \<longleftrightarrow> length (keys t) = reserved t \<and> length (vals t) = reserved t
     \<and> length (flags t) = reserved t"

definition slot_at :: "('k, 'v) policy \<Rightarrow> ('k, 'v) basic_hash_table \<Rightarrow> 'k \<Rightarrow> nat \<Rightarrow> nat" where
  "slot_at pol t key i = probe_index (hash pol key) i (reserved t)"

text \<open>The slot probed at step i is used by another key.\<close>

definition passes :: "('k, 'v) policy \<Rightarrow> ('k, 'v) basic_hash_table \<Rightarrow> 'k \<Rightarrow> nat \<Rightarrow> bool" where
  "passes pol t key i \<longleftrightarrow> flags t ! slot_at pol t key i = HASH_ELEM_USED
     \<and> compar pol key (keys t ! slot_at pol t key i) \<noteq> 0"

text \<open>The lookup passes a slot that is deleted or used by another key.\<close>

definition get_passes :: "('k, 'v) policy \<Rightarrow> ('k, 'v) basic_hash_table \<Rightarrow> 'k \<Rightarrow> nat \<Rightarrow> bool" where
  "get_passes pol t key i \<longleftrightarrow> flags t ! slot_at pol t key i \<noteq> HASH_ELEM_EMPTY
     \<and> \<not> (flags t ! slot_at pol t key i = HASH_ELEM_USED
          \<and> compar pol key (keys t ! slot_at pol t key i) = 0)"

text \<open>
  A policy for examples, after \<^verbatim>\<open>test_stol\<close>: numbers as keys and values, compared as
  \<^verbatim>\<open>compare_short\<close> does, by their difference; the hash of a key is the key.
\<close>

definition example_policy :: "(nat, nat) policy" where
  "example_policy = \<lparr>hash = word_of_nat, compar = (\<lambda>a b. int a - int b),
     junk_key = 0, junk_value = 0\<rparr>"

text \<open>
  A caller: a sequence of calls of the interface, as the tests of the source make them.
  \<open>Call_remove\<close> and \<open>Call_get\<close> pass \<^verbatim>\<open>NULL\<close> for \<^verbatim>\<open>out\<close>; every
  \<open>Call_set\<close> has fuel \<open>n\<close>.
\<close>

datatype ('k, 'v) api_call = Call_set 'k 'v | Call_remove 'k | Call_get 'k

fun run :: "nat \<Rightarrow> ('k, 'v) policy \<Rightarrow> ('k, 'v) api_call list \<Rightarrow> ('k, 'v) basic_hash_table
    \<Rightarrow> ('k, 'v) basic_hash_table outcome" where
  "run n pol [] t = Returns t"
| "run n pol (Call_set key val # ops) t =
     bind_outcome (basic_hash_table_set n pol t key val) (\<lambda>(r, t'). run n pol ops t')"
| "run n pol (Call_remove key # ops) t =
     (case basic_hash_table_remove pol t key None of (r, out, t') \<Rightarrow> run n pol ops t')"
| "run n pol (Call_get key # ops) t =
     (case basic_hash_table_get pol t key None of (r, out, t') \<Rightarrow> run n pol ops t')"

definition from_new ::
  "nat \<Rightarrow> ('k, 'v) policy \<Rightarrow> ('k, 'v) api_call list \<Rightarrow> ('k, 'v) basic_hash_table outcome" where
  "from_new n pol ops = bind_outcome (basic_hash_table_new n pol) (run n pol ops)"

definition example_empty :: "(nat, nat) basic_hash_table" where
  "example_empty = \<lparr>reserved = 13, load = 0, keys = replicate 13 0, vals = replicate 13 0,
     flags = replicate 13 HASH_ELEM_EMPTY, calls = []\<rparr>"


text \<open>
  After set(0, 100), set(13, 200) and remove(0) on the new table: slot 0 is deleted and
  key 13, whose first probe is slot 0, is in slot 1.
\<close>

definition example_tombstone :: "(nat, nat) basic_hash_table" where
  "example_tombstone = example_empty\<lparr>load := 2, keys := (keys example_empty)[0 := 0, 1 := 13],
     vals := (vals example_empty)[0 := 100, 1 := 200],
     flags := (flags example_empty)[0 := HASH_ELEM_DELETED, 1 := HASH_ELEM_USED],
     calls := [Assign_key (Slot 0) (Some 0) None, Assign_value (Slot 0) (Some 100) None,
               Assign_key (Slot 1) (Some 13) None, Assign_value (Slot 1) (Some 200) None,
               Assign_key (Slot 0) None (Some 0), Assign_value (Slot 0) None (Some 100)]\<rparr>"


text \<open>The pairs in the used slots, in the order of the slots.\<close>

definition used_entries :: "('k, 'v) basic_hash_table \<Rightarrow> ('k \<times> 'v) list" where
  "used_entries t =
     map (\<lambda>s. (keys t ! s, vals t ! s))
       (filter (\<lambda>s. flags t ! s = HASH_ELEM_USED) [0..<reserved t])"

definition count_used :: "('k, 'v) basic_hash_table \<Rightarrow> nat" where
  "count_used t = length (filter (\<lambda>f. f = HASH_ELEM_USED) (flags t))"

text \<open>The tables that calls of the interface lead to from a new table.\<close>

inductive reachable :: "('k, 'v) policy \<Rightarrow> ('k, 'v) basic_hash_table \<Rightarrow> bool"
  for pol :: "('k, 'v) policy" where
  after_new: "basic_hash_table_new n pol = Returns t \<Longrightarrow> reachable pol t"
| after_set: "reachable pol t \<Longrightarrow> basic_hash_table_set n pol t key val = Returns (r, t')
     \<Longrightarrow> reachable pol t'"
| after_get: "reachable pol t \<Longrightarrow> basic_hash_table_get pol t key out = (r, out', t')
     \<Longrightarrow> reachable pol t'"
| after_remove: "reachable pol t \<Longrightarrow> basic_hash_table_remove pol t key out = (r, out', t')
     \<Longrightarrow> reachable pol t'"
| after_next: "reachable pol t \<Longrightarrow> basic_hash_table_next t iter key val = (iter', key', val', t')
     \<Longrightarrow> reachable pol t'"

text \<open>What a run returned, for naming the tables of the examples.\<close>

definition returned :: "'a \<Rightarrow> 'a outcome \<Rightarrow> 'a" where
  "returned d m = (case m of Returns x \<Rightarrow> x | Assert_fails \<Rightarrow> d | Out_of_fuel \<Rightarrow> d)"

text \<open>Load 7 of 13, slot 0 deleted, key 13 in slot 1.\<close>

definition example_loaded :: "(nat, nat) basic_hash_table" where
  "example_loaded = returned example_empty (from_new 2 example_policy
       [Call_set 0 100, Call_set 13 200, Call_remove 0, Call_set 2 20, Call_set 3 30,
        Call_set 4 40, Call_set 5 50, Call_set 6 60])"

definition example_loaded_set :: "(nat, nat) basic_hash_table" where
  "example_loaded_set =
     snd (returned (0, example_empty) (basic_hash_table_set 2 example_policy example_loaded 13 300))"

text \<open>Key 13 in slot 0 with 300 and in slot 1 with 200.\<close>

definition example_twice :: "(nat, nat) basic_hash_table" where
  "example_twice = returned example_empty (from_new 2 example_policy
       [Call_set 0 100, Call_set 13 200, Call_remove 0, Call_set 13 300])"

definition example_twice_removed :: "(nat, nat) basic_hash_table" where
  "example_twice_removed = snd (snd (basic_hash_table_remove example_policy example_twice 13 None))"

definition example_twice_loaded :: "(nat, nat) basic_hash_table" where
  "example_twice_loaded = returned example_empty (run 2 example_policy
       [Call_set 2 20, Call_set 3 30, Call_set 4 40, Call_set 5 50] example_twice)"

definition example_twice_rehashed :: "(nat, nat) basic_hash_table" where
  "example_twice_rehashed =
     snd (returned (0, example_empty)
       (basic_hash_table_set 2 example_policy example_twice_loaded 6 60))"

text \<open>
  The loop of the rehash, seen as the insertion of a list of pairs: \<open>pending\<close> lists what
  the loop moves from position \<open>i\<close> on.
\<close>

definition pending :: "'k list \<Rightarrow> 'v list \<Rightarrow> elem_flags list \<Rightarrow> nat \<Rightarrow> nat \<Rightarrow> ('k \<times> 'v) list" where
  "pending old_k old_v old_f i oldsize =
     map (\<lambda>s. (old_k ! s, old_v ! s)) (filter (\<lambda>s. old_f ! s = HASH_ELEM_USED) [i..<oldsize])"

fun insert_all ::
  "(('k, 'v) basic_hash_table \<Rightarrow> 'k \<Rightarrow> 'v \<Rightarrow> bool \<Rightarrow> (int \<times> ('k, 'v) basic_hash_table) outcome)
     \<Rightarrow> ('k, 'v) basic_hash_table \<Rightarrow> ('k \<times> 'v) list \<Rightarrow> ('k, 'v) basic_hash_table outcome" where
  "insert_all ins t [] = Returns t"
| "insert_all ins t ((k, v) # es) =
     bind_outcome (ins t k v True) (\<lambda>(r, t'). insert_all ins t' es)"

text \<open>The sizes that the growth policy leads to.\<close>

definition capacity_ok :: "nat \<Rightarrow> bool" where
  "capacity_ok c \<longleftrightarrow> c \<in> set primes \<or> 349 \<le> c"

definition table_inv :: "('k, 'v) basic_hash_table \<Rightarrow> bool" where
  "table_inv t \<longleftrightarrow> wf_len t \<and> capacity_ok (reserved t) \<and> count_used t \<le> load t
     \<and> load t \<le> reserved t div 2 + 1"

text \<open>
  One set and one remove of key 0, again and again: what it does to \<open>(reserved, load)\<close>
  of a table none of whose slots is used.
\<close>

definition grow_step :: "nat \<times> nat \<Rightarrow> nat \<times> nat" where
  "grow_step cl = (if snd cl \<le> fst cl div 2 then (fst cl, snd cl + 1)
     else (next_prime_size (fst cl), 1))"

definition no_used :: "nat \<Rightarrow> nat \<Rightarrow> ('k, 'v) basic_hash_table \<Rightarrow> bool" where
  "no_used c l t \<longleftrightarrow> wf_len t \<and> reserved t = c \<and> load t = l \<and> 0 < c
     \<and> HASH_ELEM_USED \<notin> set (flags t)"

text \<open>After 777 rounds of set(0, 0) and remove(0) and one more set(0, 0).\<close>

definition example_grown :: "(nat, nat) basic_hash_table" where
  "example_grown = returned example_empty (from_new 2 example_policy
     (concat (replicate 777 [Call_set 0 0, Call_remove 0]) @ [Call_set 0 0]))"


section \<open>Properties\<close>

subsection \<open>The two scans\<close>

lemma flag_not_used: "f \<noteq> HASH_ELEM_USED \<longleftrightarrow> f = HASH_ELEM_EMPTY \<or> f = HASH_ELEM_DELETED"
  by (cases f) auto

lemma probe_index_less: "0 < r \<Longrightarrow> probe_index h i r < r"
  by (simp add: probe_index_def)

lemma slot_at_less: "0 < reserved t \<Longrightarrow> slot_at pol t key i < reserved t"
  by (simp add: slot_at_def probe_index_less)

lemma set_scan_unfold:
  "set_scan pol t key val reset i =
     (if i < reserved t then
        if flags t ! slot_at pol t key i \<noteq> HASH_ELEM_USED
        then Some (1, place_fresh t key val reset (slot_at pol t key i))
        else if compar pol key (keys t ! slot_at pol t key i) = 0
        then Some (0, replace_value t val (slot_at pol t key i))
        else set_scan pol t key val reset (Suc i)
      else None)"
  by (subst set_scan.simps) (simp add: slot_at_def flag_not_used Let_def)

lemma get_scan_unfold:
  "get_scan pol t key i =
     (if i < reserved t then
        if flags t ! slot_at pol t key i = HASH_ELEM_USED
           \<and> compar pol key (keys t ! slot_at pol t key i) = 0
        then Some (slot_at pol t key i)
        else if flags t ! slot_at pol t key i = HASH_ELEM_EMPTY then None
        else get_scan pol t key (Suc i)
      else None)"
  by (subst get_scan.simps) (simp add: slot_at_def Let_def)

lemma set_scan_skip:
  "i \<le> j \<Longrightarrow> j \<le> reserved t \<Longrightarrow> \<forall>j'. i \<le> j' \<and> j' < j \<longrightarrow> passes pol t key j' \<Longrightarrow>
   set_scan pol t key val reset i = set_scan pol t key val reset j"
proof (induction "j - i" arbitrary: i)
  case 0
  then show ?case by simp
next
  case (Suc d)
  then have "passes pol t key i" "i < reserved t" by auto
  then have "set_scan pol t key val reset i = set_scan pol t key val reset (Suc i)"
    by (subst set_scan_unfold) (simp add: passes_def)
  also have "\<dots> = set_scan pol t key val reset j"
    using Suc by (intro Suc.hyps) auto
  finally show ?case .
qed

lemma set_scan_stop:
  "set_scan pol t key val reset i = Some (r, t') \<Longrightarrow>
   \<exists>j. i \<le> j \<and> j < reserved t \<and> (\<forall>j'. i \<le> j' \<and> j' < j \<longrightarrow> passes pol t key j')
     \<and> \<not> passes pol t key j"
proof (induction pol t key val reset i rule: set_scan.induct)
  case (1 pol t key val reset i)
  from "1.prems" have lt: "i < reserved t"
    by (subst (asm) set_scan_unfold) (simp split: if_splits)
  show ?case
  proof (cases "passes pol t key i")
    case False
    with lt show ?thesis by (intro exI[of _ i]) auto
  next
    case True
    with "1.prems" lt have rec: "set_scan pol t key val reset (i + 1) = Some (r, t')"
      by (subst (asm) set_scan_unfold) (simp add: passes_def)
    from True lt have "\<exists>j. i + 1 \<le> j \<and> j < reserved t
        \<and> (\<forall>j'. i + 1 \<le> j' \<and> j' < j \<longrightarrow> passes pol t key j') \<and> \<not> passes pol t key j"
      by (intro "1.IH"[OF lt refl _ _ rec]) (auto simp: passes_def slot_at_def)
    then obtain j where j: "i + 1 \<le> j" "j < reserved t"
      "\<forall>j'. i + 1 \<le> j' \<and> j' < j \<longrightarrow> passes pol t key j'" "\<not> passes pol t key j"
      by blast
    have "\<forall>j'. i \<le> j' \<and> j' < j \<longrightarrow> passes pol t key j'"
      using True j(3) by (metis Suc_eq_plus1 Suc_leI le_neq_implies_less)
    with j show ?thesis by (intro exI[of _ j]) auto
  qed
qed

lemma set_scan_None_iff:
  "set_scan pol t key val reset i = None \<longleftrightarrow> (\<forall>j. i \<le> j \<and> j < reserved t \<longrightarrow> passes pol t key j)"
proof
  assume none: "set_scan pol t key val reset i = None"
  show "\<forall>j. i \<le> j \<and> j < reserved t \<longrightarrow> passes pol t key j"
  proof (intro allI impI)
    fix j assume j: "i \<le> j \<and> j < reserved t"
    show "passes pol t key j"
    proof (rule ccontr)
      assume np: "\<not> passes pol t key j"
      define m where "m = (LEAST m. i \<le> m \<and> \<not> passes pol t key m)"
      have m: "i \<le> m \<and> \<not> passes pol t key m" unfolding m_def
        by (rule LeastI[of "\<lambda>m. i \<le> m \<and> \<not> passes pol t key m" j]) (use j np in simp)
      have mj: "m \<le> j" unfolding m_def by (rule Least_le) (use j np in simp)
      have below: "\<forall>j'. i \<le> j' \<and> j' < m \<longrightarrow> passes pol t key j'"
        unfolding m_def using not_less_Least by blast
      have "set_scan pol t key val reset i = set_scan pol t key val reset m"
        using m mj j below by (intro set_scan_skip) auto
      moreover have "set_scan pol t key val reset m \<noteq> None"
        using m mj j by (subst set_scan_unfold) (auto simp: passes_def)
      ultimately show False using none by simp
    qed
  qed
next
  assume all: "\<forall>j. i \<le> j \<and> j < reserved t \<longrightarrow> passes pol t key j"
  show "set_scan pol t key val reset i = None"
  proof (cases "i \<le> reserved t")
    case True
    then have "set_scan pol t key val reset i = set_scan pol t key val reset (reserved t)"
      using all by (intro set_scan_skip) auto
    then show ?thesis by (subst (asm) (2) set_scan_unfold) simp
  next
    case False
    then show ?thesis by (subst set_scan_unfold) simp
  qed
qed

lemma set_scan_at:
  assumes "i \<le> j" "j < reserved t" "\<forall>j'. i \<le> j' \<and> j' < j \<longrightarrow> passes pol t key j'"
    "\<not> passes pol t key j"
  shows "set_scan pol t key val reset i =
     Some (if flags t ! slot_at pol t key j \<noteq> HASH_ELEM_USED
           then (1, place_fresh t key val reset (slot_at pol t key j))
           else (0, replace_value t val (slot_at pol t key j)))"
proof -
  have "set_scan pol t key val reset i = set_scan pol t key val reset j"
    using assms by (intro set_scan_skip) auto
  then show ?thesis using assms(2,4)
    by (subst (asm) (2) set_scan_unfold) (auto simp: passes_def)
qed

lemma get_scan_skip:
  "i \<le> j \<Longrightarrow> j \<le> reserved t \<Longrightarrow> \<forall>j'. i \<le> j' \<and> j' < j \<longrightarrow> get_passes pol t key j' \<Longrightarrow>
   get_scan pol t key i = get_scan pol t key j"
proof (induction "j - i" arbitrary: i)
  case 0
  then show ?case by simp
next
  case (Suc d)
  then have "get_passes pol t key i" "i < reserved t" by auto
  then have "get_scan pol t key i = get_scan pol t key (Suc i)"
    by (subst get_scan_unfold) (auto simp add: get_passes_def)
  also have "\<dots> = get_scan pol t key j"
    using Suc by (intro Suc.hyps) auto
  finally show ?case .
qed

lemma get_scan_stop:
  "get_scan pol t key i = Some s \<Longrightarrow>
   \<exists>j. i \<le> j \<and> j < reserved t \<and> (\<forall>j'. i \<le> j' \<and> j' < j \<longrightarrow> get_passes pol t key j')
     \<and> s = slot_at pol t key j \<and> flags t ! s = HASH_ELEM_USED \<and> compar pol key (keys t ! s) = 0"
proof (induction pol t key i rule: get_scan.induct)
  case (1 pol t key i)
  from "1.prems" have lt: "i < reserved t"
    by (subst (asm) get_scan_unfold) (simp split: if_splits)
  show ?case
  proof (cases "get_passes pol t key i")
    case False
    with "1.prems" lt show ?thesis
      by (subst (asm) get_scan_unfold) (intro exI[of _ i], auto simp: get_passes_def split: if_splits)
  next
    case True
    with "1.prems" lt have rec: "get_scan pol t key (i + 1) = Some s"
      by (subst (asm) get_scan_unfold) (auto simp add: get_passes_def split: if_splits)
    from True lt have "\<exists>j. i + 1 \<le> j \<and> j < reserved t
        \<and> (\<forall>j'. i + 1 \<le> j' \<and> j' < j \<longrightarrow> get_passes pol t key j')
        \<and> s = slot_at pol t key j \<and> flags t ! s = HASH_ELEM_USED \<and> compar pol key (keys t ! s) = 0"
      by (intro "1.IH"[OF lt refl _ _ rec]) (auto simp: get_passes_def slot_at_def)
    then obtain j where j: "i + 1 \<le> j" "j < reserved t"
      "\<forall>j'. i + 1 \<le> j' \<and> j' < j \<longrightarrow> get_passes pol t key j'"
      "s = slot_at pol t key j \<and> flags t ! s = HASH_ELEM_USED \<and> compar pol key (keys t ! s) = 0"
      by blast
    have "\<forall>j'. i \<le> j' \<and> j' < j \<longrightarrow> get_passes pol t key j'"
      using True j(3) by (metis Suc_eq_plus1 Suc_leI le_neq_implies_less)
    with j show ?thesis by (intro exI[of _ j]) auto
  qed
qed

lemma get_scan_hit:
  assumes "i \<le> j" "j < reserved t" "\<forall>j'. i \<le> j' \<and> j' < j \<longrightarrow> get_passes pol t key j'"
    "flags t ! slot_at pol t key j = HASH_ELEM_USED"
    "compar pol key (keys t ! slot_at pol t key j) = 0"
  shows "get_scan pol t key i = Some (slot_at pol t key j)"
proof -
  have "get_scan pol t key i = get_scan pol t key j"
    using assms by (intro get_scan_skip) auto
  then show ?thesis using assms(2,4,5)
    by (subst (asm) (2) get_scan_unfold) (auto)
qed

lemma get_scan_miss_empty:
  assumes "i \<le> j" "j < reserved t" "\<forall>j'. i \<le> j' \<and> j' < j \<longrightarrow> get_passes pol t key j'"
    "flags t ! slot_at pol t key j = HASH_ELEM_EMPTY"
  shows "get_scan pol t key i = None"
proof -
  have "get_scan pol t key i = get_scan pol t key j"
    using assms by (intro get_scan_skip) auto
  then show ?thesis using assms(2,4)
    by (subst (asm) (2) get_scan_unfold) (auto)
qed

lemma get_scan_miss_end:
  assumes "i \<le> reserved t" "\<forall>j'. i \<le> j' \<and> j' < reserved t \<longrightarrow> get_passes pol t key j'"
  shows "get_scan pol t key i = None"
proof -
  have "get_scan pol t key i = get_scan pol t key (reserved t)"
    using assms by (intro get_scan_skip) auto
  then show ?thesis
    by (subst (asm) (2) get_scan_unfold) (auto)
qed

lemma assign_elem_Some [simp]: "assign_elem c (Some n) old = n"
  by (simp add: assign_elem_def)

lemma assign_elem_None [simp]: "assign_elem c None old = c"
  by (simp add: assign_elem_def)

lemma place_fresh_fields [simp]:
  "reserved (place_fresh t key val reset s) = reserved t"
  "load (place_fresh t key val reset s) = load t + 1"
  "keys (place_fresh t key val reset s) = (keys t)[s := key]"
  "vals (place_fresh t key val reset s) = (vals t)[s := val]"
  "flags (place_fresh t key val reset s) = (flags t)[s := HASH_ELEM_USED]"
  by (simp_all add: place_fresh_def Let_def)

lemma replace_value_fields [simp]:
  "reserved (replace_value t val s) = reserved t"
  "load (replace_value t val s) = load t"
  "keys (replace_value t val s) = keys t"
  "vals (replace_value t val s) = (vals t)[s := val]"
  "flags (replace_value t val s) = (flags t)[s := HASH_ELEM_USED]"
  by (simp_all add: replace_value_def)

lemma fresh_storage_fields [simp]:
  "reserved (fresh_storage pol t n) = n"
  "load (fresh_storage pol t n) = 0"
  "keys (fresh_storage pol t n) = replicate n (junk_key pol)"
  "vals (fresh_storage pol t n) = replicate n (junk_value pol)"
  "flags (fresh_storage pol t n) = replicate n HASH_ELEM_EMPTY"
  "calls (fresh_storage pol t n) = calls t"
  by (simp_all add: fresh_storage_def)

lemma slot_at_cong: "reserved t' = reserved t \<Longrightarrow> slot_at pol t' key i = slot_at pol t key i"
  by (simp add: slot_at_def)

lemma slot_at_place_fresh [simp]:
  "slot_at pol (place_fresh t key val reset s) k i = slot_at pol t k i"
  by (simp add: slot_at_def)

lemma slot_at_replace_value [simp]:
  "slot_at pol (replace_value t val s) k i = slot_at pol t k i"
  by (simp add: slot_at_def)

lemma wf_len_place_fresh [simp]: "wf_len (place_fresh t key val reset s) = wf_len t"
  by (simp add: wf_len_def)

lemma wf_len_replace_value [simp]: "wf_len (replace_value t val s) = wf_len t"
  by (simp add: wf_len_def)

lemma wf_len_fresh_storage [simp]: "wf_len (fresh_storage pol t n)"
  by (simp add: wf_len_def)

lemma set_scan_result:
  assumes "set_scan pol t key val reset i = Some (r, t')"
  obtains j where "i \<le> j" "j < reserved t" "\<forall>j'. i \<le> j' \<and> j' < j \<longrightarrow> passes pol t key j'"
    "\<not> passes pol t key j"
    "flags t ! slot_at pol t key j \<noteq> HASH_ELEM_USED \<Longrightarrow>
       r = 1 \<and> t' = place_fresh t key val reset (slot_at pol t key j)"
    "flags t ! slot_at pol t key j = HASH_ELEM_USED \<Longrightarrow>
       r = 0 \<and> t' = replace_value t val (slot_at pol t key j)
       \<and> compar pol key (keys t ! slot_at pol t key j) = 0"
proof -
  from set_scan_stop[OF assms] obtain j where j: "i \<le> j" "j < reserved t"
    "\<forall>j'. i \<le> j' \<and> j' < j \<longrightarrow> passes pol t key j'" "\<not> passes pol t key j" by blast
  from set_scan_at[OF this, of val reset] assms
  have "(r, t') = (if flags t ! slot_at pol t key j \<noteq> HASH_ELEM_USED
           then (1, place_fresh t key val reset (slot_at pol t key j))
           else (0, replace_value t val (slot_at pol t key j)))" by simp
  with j show ?thesis by (intro that[of j]) (auto simp: passes_def split: if_splits)
qed

lemma set_scan_wf_len:
  "set_scan pol t key val reset i = Some (r, t') \<Longrightarrow> wf_len t \<Longrightarrow> wf_len t'"
proof (erule set_scan_result)
  fix j
  assume "wf_len t"
    "flags t ! slot_at pol t key j \<noteq> HASH_ELEM_USED \<Longrightarrow>
       r = 1 \<and> t' = place_fresh t key val reset (slot_at pol t key j)"
    "flags t ! slot_at pol t key j = HASH_ELEM_USED \<Longrightarrow>
       r = 0 \<and> t' = replace_value t val (slot_at pol t key j)
       \<and> compar pol key (keys t ! slot_at pol t key j) = 0"
  then show "wf_len t'"
    by (cases "flags t ! slot_at pol t key j = HASH_ELEM_USED") auto
qed

lemma set_scan_reserved:
  "set_scan pol t key val reset i = Some (r, t') \<Longrightarrow> reserved t' = reserved t"
  by (erule set_scan_result) (metis place_fresh_fields(1) replace_value_fields(1))

lemma get_scan_after_set_scan:
  assumes wf: "wf_len t" and set: "set_scan pol t key val reset 0 = Some (r, t')"
    and refl: "compar pol key key = 0"
  shows "\<exists>s. get_scan pol t' key 0 = Some s \<and> vals t' ! s = val"
proof -
  from set obtain j where j: "j < reserved t" "\<forall>j'. j' < j \<longrightarrow> passes pol t key j'"
    "\<not> passes pol t key j"
    and fresh: "flags t ! slot_at pol t key j \<noteq> HASH_ELEM_USED \<Longrightarrow>
       r = 1 \<and> t' = place_fresh t key val reset (slot_at pol t key j)"
    and match: "flags t ! slot_at pol t key j = HASH_ELEM_USED \<Longrightarrow>
       r = 0 \<and> t' = replace_value t val (slot_at pol t key j)
       \<and> compar pol key (keys t ! slot_at pol t key j) = 0"
    by (elim set_scan_result) auto
  let ?s = "slot_at pol t key j"
  have res: "reserved t' = reserved t" using set by (rule set_scan_reserved)
  have s: "?s < reserved t" using j(1) by (intro slot_at_less) simp
  have fl: "flags t' = (flags t)[?s := HASH_ELEM_USED]"
    using fresh match by (cases "flags t ! ?s = HASH_ELEM_USED") auto
  have vl: "vals t' = (vals t)[?s := val]"
    using fresh match by (cases "flags t ! ?s = HASH_ELEM_USED") auto
  have neq: "slot_at pol t key j' \<noteq> ?s" if "j' < j" for j'
    using j(2,3) that by (auto simp: passes_def)
  have keq: "keys t' ! slot_at pol t key j' = keys t ! slot_at pol t key j'" if "j' < j" for j'
    using fresh match neq[OF that] by (cases "flags t ! ?s = HASH_ELEM_USED") auto
  have "get_passes pol t' key j'" if "j' < j" for j'
    using j(2) that neq[OF that] keq[OF that]
    by (auto simp: get_passes_def passes_def fl slot_at_cong[OF res])
  moreover have "flags t' ! slot_at pol t' key j = HASH_ELEM_USED"
    using s wf by (simp add: fl slot_at_cong[OF res] wf_len_def)
  moreover have "compar pol key (keys t' ! slot_at pol t' key j) = 0"
    using fresh match refl s wf
    by (cases "flags t ! ?s = HASH_ELEM_USED") (auto simp: slot_at_cong[OF res] wf_len_def)
  ultimately have "get_scan pol t' key 0 = Some (slot_at pol t' key j)"
    using j(1) res by (intro get_scan_hit) auto
  moreover have "vals t' ! slot_at pol t' key j = val"
    using s wf by (simp add: vl slot_at_cong[OF res] wf_len_def)
  ultimately show ?thesis by blast
qed

subsection \<open>Fuel\<close>

lemma bind_outcome_Returns:
  "bind_outcome m f = Returns y \<longleftrightarrow> (\<exists>x. m = Returns x \<and> f x = Returns y)"
  by (cases m) (auto simp: bind_outcome_def)

lemma bind_outcome_simps [simp]:
  "bind_outcome (Returns x) f = f x"
  "bind_outcome Assert_fails f = Assert_fails"
  "bind_outcome Out_of_fuel f = Out_of_fuel"
  by (simp_all add: bind_outcome_def)

lemma rehash_loop_mono:
  assumes "\<And>t k v b x. ins t k v b = Returns x \<Longrightarrow> ins' t k v b = Returns x"
    and "rehash_loop ins t old_k old_v old_f i oldsize = Returns y"
  shows "rehash_loop ins' t old_k old_v old_f i oldsize = Returns y"
  using assms
proof (induction ins t old_k old_v old_f i oldsize rule: rehash_loop.induct)
  case (1 ins t old_k old_v old_f i oldsize)
  show ?case
  proof (cases "i < oldsize")
    case False
    with "1.prems"(2) show ?thesis
      by (subst rehash_loop.simps, subst (asm) rehash_loop.simps) simp
  next
    case lt: True
    show ?thesis
    proof (cases "old_f ! i = HASH_ELEM_USED")
      case False
      with lt "1.prems"(2) have "rehash_loop ins t old_k old_v old_f (i + 1) oldsize = Returns y"
        by (subst (asm) rehash_loop.simps) simp
      from "1.IH"(2)[OF lt False "1.prems"(1) this] lt False show ?thesis
        by (subst rehash_loop.simps) simp
    next
      case True
      with lt "1.prems"(2) obtain r t1 where
        a: "ins t (old_k ! i) (old_v ! i) True = Returns (r, t1)"
        and b: "rehash_loop ins t1 old_k old_v old_f (i + 1) oldsize = Returns y"
        by (subst (asm) rehash_loop.simps) (auto simp: bind_outcome_Returns)
      from "1.IH"(1)[OF lt True "1.prems"(1) b]
      have "rehash_loop ins' t1 old_k old_v old_f (i + 1) oldsize = Returns y" .
      with "1.prems"(1)[OF a] lt True show ?thesis
        by (subst rehash_loop.simps) simp
    qed
  qed
qed

lemma set_from_Suc:
  "set_from n e pol t key val reset = Returns x \<Longrightarrow> set_from (Suc n) e pol t key val reset = Returns x"
proof (induction n arbitrary: e t key val reset x)
  case 0
  then show ?case by simp
next
  case (Suc n)
  have rh: "rehash_with (set_from (Suc n) True pol) pol t' a b = Returns y"
    if "rehash_with (set_from n True pol) pol t' a b = Returns y" for t' a b y
    using that unfolding rehash_with_def
    by (rule rehash_loop_mono[rotated]) (rule Suc.IH)
  show ?case
  proof (cases "e \<and> load t > reserved t div 2")
    case True
    with Suc.prems have nr: "\<not> reset" by (auto split: if_splits)
    with True Suc.prems obtain t1 where
      a: "rehash_with (set_from n True pol) pol t (reserved t) (next_prime_size (reserved t)) = Returns t1"
      and b: "set_from n False pol t1 key val reset = Returns x"
      by (auto simp: bind_outcome_Returns)
    from rh[OF a] Suc.IH[OF b] True nr show ?thesis
      by (subst set_from.simps) simp
  next
    case False
    show ?thesis
    proof (cases "set_scan pol t key val reset 0")
      case (Some r)
      with False Suc.prems show ?thesis by (subst set_from.simps) auto
    next
      case None
      with False Suc.prems obtain t1 where
        a: "rehash_with (set_from n True pol) pol t (reserved t) (next_prime_size (reserved t)) = Returns t1"
        and b: "set_from n False pol t1 key val reset = Returns x"
        by (auto simp: bind_outcome_Returns)
      from rh[OF a] Suc.IH[OF b] False None show ?thesis
        by (subst set_from.simps) auto
    qed
  qed
qed

lemma set_from_mono:
  "set_from n e pol t key val reset = Returns x \<Longrightarrow> n \<le> m \<Longrightarrow>
   set_from m e pol t key val reset = Returns x"
  by (induction m) (auto simp: le_Suc_eq dest: set_from_Suc simp del: set_from.simps)

lemma rehash_with_mono:
  "rehash_with (set_from n True pol) pol t a b = Returns y \<Longrightarrow> n \<le> m \<Longrightarrow>
   rehash_with (set_from m True pol) pol t a b = Returns y"
  unfolding rehash_with_def by (erule rehash_loop_mono[rotated]) (erule set_from_mono)

subsection \<open>Invariants of the insertion\<close>

lemma rehash_loop_invariant:
  assumes "\<And>t k v r t'. P t \<Longrightarrow> ins t k v True = Returns (r, t') \<Longrightarrow> P t'"
    and "rehash_loop ins t old_k old_v old_f i oldsize = Returns t'" and "P t"
  shows "P t'"
  using assms
proof (induction ins t old_k old_v old_f i oldsize rule: rehash_loop.induct)
  case (1 ins t old_k old_v old_f i oldsize)
  show ?case
  proof (cases "i < oldsize")
    case False
    with "1.prems"(2,3) show ?thesis by (subst (asm) rehash_loop.simps) simp
  next
    case lt: True
    show ?thesis
    proof (cases "old_f ! i = HASH_ELEM_USED")
      case False
      with lt "1.prems"(2) have "rehash_loop ins t old_k old_v old_f (i + 1) oldsize = Returns t'"
        by (subst (asm) rehash_loop.simps) simp
      from "1.IH"(2)[OF lt False "1.prems"(1) this "1.prems"(3)] show ?thesis .
    next
      case True
      with lt "1.prems"(2) obtain r t1 where
        a: "ins t (old_k ! i) (old_v ! i) True = Returns (r, t1)"
        and b: "rehash_loop ins t1 old_k old_v old_f (i + 1) oldsize = Returns t'"
        by (subst (asm) rehash_loop.simps) (auto simp: bind_outcome_Returns)
      from "1.prems"(1)[OF "1.prems"(3) a] have "P t1" .
      from "1.IH"(1)[OF lt True "1.prems"(1) b this] show ?thesis .
    qed
  qed
qed

lemma set_from_final_scan:
  assumes scan: "\<And>t k v reset r t'. P t \<Longrightarrow> set_scan pol t k v reset 0 = Some (r, t') \<Longrightarrow> P t'"
    and fresh: "\<And>t. P t \<Longrightarrow> P (fresh_storage pol t (next_prime_size (reserved t)))"
  shows "P t \<Longrightarrow> set_from n e pol t key val reset = Returns (r, t') \<Longrightarrow>
     \<exists>t0. P t0 \<and> set_scan pol t0 key val reset 0 = Some (r, t')"
proof (induction n arbitrary: e t key val reset r t')
  case 0
  then show ?case by simp
next
  case (Suc n)
  have ins: "P b" if "P a" "set_from n True pol a k v rs = Returns (x, b)" for a k v rs x b
    using Suc.IH[OF that] scan by blast
  have rh: "P t1" if "P t0"
    "rehash_with (set_from n True pol) pol t0 (reserved t0) (next_prime_size (reserved t0)) = Returns t1"
    for t0 t1
    using that(2) unfolding rehash_with_def
    by (rule rehash_loop_invariant[where P = P, rotated]) (use ins fresh that(1) in auto)
  show ?case
  proof (cases "e \<and> load t > reserved t div 2")
    case True
    with Suc.prems obtain t1 where
      a: "rehash_with (set_from n True pol) pol t (reserved t) (next_prime_size (reserved t)) = Returns t1"
      and b: "set_from n False pol t1 key val reset = Returns (r, t')"
      by (auto simp: bind_outcome_Returns split: if_splits)
    from Suc.IH[OF rh[OF Suc.prems(1) a] b] show ?thesis .
  next
    case False
    show ?thesis
    proof (cases "set_scan pol t key val reset 0")
      case (Some x)
      with False Suc.prems show ?thesis by (auto split: if_splits)
    next
      case None
      with False Suc.prems obtain t1 where
        a: "rehash_with (set_from n True pol) pol t (reserved t) (next_prime_size (reserved t)) = Returns t1"
        and b: "set_from n False pol t1 key val reset = Returns (r, t')"
        by (auto simp: bind_outcome_Returns split: if_splits)
      from Suc.IH[OF rh[OF Suc.prems(1) a] b] show ?thesis .
    qed
  qed
qed

lemma set_from_invariant:
  assumes scan: "\<And>t k v reset r t'. P t \<Longrightarrow> set_scan pol t k v reset 0 = Some (r, t') \<Longrightarrow> P t'"
    and fresh: "\<And>t. P t \<Longrightarrow> P (fresh_storage pol t (next_prime_size (reserved t)))"
    and "P t" "set_from n e pol t key val reset = Returns (r, t')"
  shows "P t'"
proof -
  have "\<exists>t0. P t0 \<and> set_scan pol t0 key val reset 0 = Some (r, t')"
    by (rule set_from_final_scan[where P = P and t = t and n = n and e = e])
       (erule (1) scan, erule fresh, fact+)
  then obtain t0 where "P t0" "set_scan pol t0 key val reset 0 = Some (r, t')" by blast
  then show ?thesis by (rule scan)
qed

lemma set_from_wf_len:
  "wf_len t \<Longrightarrow> set_from n e pol t key val reset = Returns (r, t') \<Longrightarrow> wf_len t'"
  by (rule set_from_invariant[where P = wf_len]) (auto intro: set_scan_wf_len)

lemma get_scan_after_set_from:
  assumes "wf_len t" "set_from n e pol t key val reset = Returns (r, t')" "compar pol key key = 0"
  shows "\<exists>s. get_scan pol t' key 0 = Some s \<and> vals t' ! s = val"
proof -
  have "\<exists>t0. wf_len t0 \<and> set_scan pol t0 key val reset 0 = Some (r, t')"
    by (rule set_from_final_scan[where P = wf_len and t = t and n = n and e = e])
       (erule (1) set_scan_wf_len, simp, fact+)
  then obtain t0 where "wf_len t0" "set_scan pol t0 key val reset 0 = Some (r, t')" by blast
  then show ?thesis using assms(3) by (rule get_scan_after_set_scan)
qed

subsection \<open>Growth\<close>

lemma next_prime_size_cases:
  "next_prime_size old =
     (if old < 13 then 13 else if old < 17 then 17 else if old < 29 then 29
      else if old < 47 then 47 else if old < 61 then 61 else if old < 97 then 97
      else if old < 157 then 157 else if old < 251 then 251 else if old < 349 then 349
      else old * 2 - old div 2)"
  by (simp add: next_prime_size_def primes_def eval_nat_numeral)

lemma next_prime_size_greater: "old < next_prime_size old"
  unfolding next_prime_size_cases by auto



lemma set_from_reserved:
  assumes "set_from n e pol t key val reset = Returns (r, t')"
  shows "reserved t \<le> reserved t'"
proof -
  have "reserved t \<le> reserved t" by simp
  then show ?thesis
  proof (rule set_from_invariant[where P = "\<lambda>x. reserved t \<le> reserved x", rotated 2])
    show "set_from n e pol t key val reset = Returns (r, t')" by fact
  next
    fix a k v rs x b
    assume "reserved t \<le> reserved a" "set_scan pol a k v rs 0 = Some (x, b)"
    then show "reserved t \<le> reserved b" by (simp add: set_scan_reserved)
  next
    fix a :: "('a, 'b) basic_hash_table"
    assume "reserved t \<le> reserved a"
    then show "reserved t \<le> reserved (fresh_storage pol a (next_prime_size (reserved a)))"
      using next_prime_size_greater[of "reserved a"] by simp
  qed
qed




lemma example_new: "basic_hash_table_new 1 example_policy = Returns example_empty"
  by code_simp

lemma example_tombstone_run:
  "from_new 2 example_policy [Call_set 0 100, Call_set 13 200, Call_remove 0]
     = Returns example_tombstone"
  by code_simp


subsection \<open>Lookup\<close>





subsection \<open>Removal\<close>

text \<open>
  C10.  A remove that returns 0 leaves the table as it was (flags, keys, values, load,
  reserved and the record of callback calls, so no callback was called) and leaves the
  buffer of the caller as it was.
\<close>

theorem remove_miss_changes_nothing:
  "basic_hash_table_remove pol t key out = (0, out', t') \<Longrightarrow> t' = t \<and> out' = out"
  by (auto simp: basic_hash_table_remove_def basic_hash_table_get_inner_def Let_def
      split: option.splits)

theorem remove_miss_changes_nothing_witness:
  "basic_hash_table_remove example_policy example_tombstone 0 (Some 7) = (0, Some 7, example_tombstone)"
proof -
  have "basic_hash_table_remove example_policy example_tombstone 0 (Some 7)
      = (0, snd (basic_hash_table_remove example_policy example_tombstone 0 (Some 7)))"
    by code_simp
  with remove_miss_changes_nothing[of example_policy example_tombstone 0 "Some 7"
      "fst (snd (basic_hash_table_remove example_policy example_tombstone 0 (Some 7)))"
      "snd (snd (basic_hash_table_remove example_policy example_tombstone 0 (Some 7)))"]
  show ?thesis by (metis prod.collapse)
qed

subsection \<open>A second slot for a key\<close>

lemma set_from_no_rehash:
  assumes "\<not> (e \<and> load t > reserved t div 2)" "set_scan pol t key val reset 0 = Some x"
  shows "set_from (Suc n) e pol t key val reset = Returns x"
  using assms by (subst set_from.simps) auto

text \<open>
  C9, as the code has it.  Let no rehash be due (\<open>load \<le> reserved div 2\<close>), let the key be
  in a used slot at position \<open>j\<close> of its probe sequence, let position \<open>i < j\<close> hold a deleted
  slot and let every position before \<open>i\<close> hold a slot used by another key.  Then set
  returns 1, stores the key and the value in the slot of position \<open>i\<close> with both callbacks
  called with no old element, and leaves the slot of position \<open>j\<close> as it was: two used
  slots hold the key.
\<close>

theorem set_takes_tombstone_before_key:
  assumes "wf_len t" and "load t \<le> reserved t div 2" and "i < j" and "j < reserved t"
    and "\<forall>i'<i. passes pol t key i'"
    and "flags t ! slot_at pol t key i = HASH_ELEM_DELETED"
    and "flags t ! slot_at pol t key j = HASH_ELEM_USED"
    and "compar pol key (keys t ! slot_at pol t key j) = 0"
  shows "\<exists>t'. basic_hash_table_set (Suc n) pol t key val = Returns (1, t')
     \<and> slot_at pol t key i \<noteq> slot_at pol t key j
     \<and> flags t' ! slot_at pol t key i = HASH_ELEM_USED
     \<and> keys t' ! slot_at pol t key i = key \<and> vals t' ! slot_at pol t key i = val
     \<and> flags t' ! slot_at pol t key j = HASH_ELEM_USED
     \<and> keys t' ! slot_at pol t key j = keys t ! slot_at pol t key j
     \<and> vals t' ! slot_at pol t key j = vals t ! slot_at pol t key j
     \<and> calls t' = calls t @ [Assign_key (Slot (slot_at pol t key i)) (Some key) None,
                              Assign_value (Slot (slot_at pol t key i)) (Some val) None]"
proof -
  let ?si = "slot_at pol t key i" and ?sj = "slot_at pol t key j"
  let ?t' = "place_fresh t key val False ?si"
  have np: "\<not> passes pol t key i" using assms(6) by (simp add: passes_def)
  have "set_scan pol t key val False 0 = Some (1, ?t')"
    using set_scan_at[of 0 i t pol key val False] assms(3,4,5,6) np by simp
  then have "basic_hash_table_set (Suc n) pol t key val = Returns (1, ?t')"
    unfolding basic_hash_table_set_def basic_hash_table_set_inner_def
    using assms(2) by (intro set_from_no_rehash) auto
  moreover have ne: "?si \<noteq> ?sj" using assms(6,7) by auto
  moreover have "?si < reserved t" using assms(3,4) by (intro slot_at_less) simp
  moreover have "calls ?t' = calls t @ [Assign_key (Slot ?si) (Some key) None,
                              Assign_value (Slot ?si) (Some val) None]"
    by (simp add: place_fresh_def)
  ultimately show ?thesis using assms(1,7) by (intro exI[of _ ?t']) (simp add: wf_len_def)
qed

theorem set_takes_tombstone_before_key_witness:
  "wf_len example_tombstone \<and> load example_tombstone \<le> reserved example_tombstone div 2
   \<and> slot_at example_policy example_tombstone 13 0 = 0
   \<and> slot_at example_policy example_tombstone 13 1 = 1
   \<and> flags example_tombstone ! 0 = HASH_ELEM_DELETED
   \<and> flags example_tombstone ! 1 = HASH_ELEM_USED
   \<and> compar example_policy 13 (keys example_tombstone ! 1) = 0
   \<and> (\<exists>t'. basic_hash_table_set 1 example_policy example_tombstone 13 300 = Returns (1, t')
        \<and> flags t' ! 0 = HASH_ELEM_USED \<and> keys t' ! 0 = 13 \<and> vals t' ! 0 = 300
        \<and> flags t' ! 1 = HASH_ELEM_USED \<and> keys t' ! 1 = 13 \<and> vals t' ! 1 = 200)"
proof -
  have a: "wf_len example_tombstone" "load example_tombstone \<le> reserved example_tombstone div 2"
    "(0::nat) < 1" "1 < reserved example_tombstone"
    "flags example_tombstone ! slot_at example_policy example_tombstone 13 0 = HASH_ELEM_DELETED"
    "flags example_tombstone ! slot_at example_policy example_tombstone 13 1 = HASH_ELEM_USED"
    "compar example_policy 13 (keys example_tombstone ! slot_at example_policy example_tombstone 13 1) = 0"
    by code_simp+
  have b: "\<forall>i'<0. passes example_policy example_tombstone 13 i'" by simp
  have c: "slot_at example_policy example_tombstone 13 0 = 0"
    "slot_at example_policy example_tombstone 13 1 = 1"
    "keys example_tombstone ! 1 = 13" "vals example_tombstone ! 1 = 200" by code_simp+
  from set_takes_tombstone_before_key[OF a(1,2,3,4) b a(5,6,7), of 0 300] a c
  show ?thesis by simp blast
qed

text \<open>
  C9 as it is worded fails where a rehash is due.  After set(0), set(13), remove(0) and
  five more sets the load is 7 of 13; slot 0, first in the probe sequence of key 13, is
  deleted and key 13 is in slot 1, second in it.  set(13, 300) rehashes first, finds the
  key in the new storage and returns 0; one slot holds key 13 afterwards.
\<close>

theorem set_takes_tombstone_counterexample:
  "from_new 2 example_policy
       [Call_set 0 100, Call_set 13 200, Call_remove 0, Call_set 2 20, Call_set 3 30,
        Call_set 4 40, Call_set 5 50, Call_set 6 60] = Returns example_loaded
   \<and> reserved example_loaded = 13 \<and> load example_loaded = 7
   \<and> slot_at example_policy example_loaded 13 0 = 0
   \<and> slot_at example_policy example_loaded 13 1 = 1
   \<and> flags example_loaded ! 0 = HASH_ELEM_DELETED
   \<and> flags example_loaded ! 1 = HASH_ELEM_USED
   \<and> keys example_loaded ! 1 = 13
   \<and> basic_hash_table_set 2 example_policy example_loaded 13 300
        = Returns (0, example_loaded_set)
   \<and> reserved example_loaded_set = 17
   \<and> used_entries example_loaded_set
        = [(2, 20), (3, 30), (4, 40), (5, 50), (6, 60), (13, 300)]"
  by code_simp

subsection \<open>Rehash and a key in two slots\<close>

text \<open>
  C3.  After set(0), set(13), remove(0), set(13, 300) key 13 is in slot 0 with 300 and in
  slot 1 with 200, and get(13) gives 300.  Four more sets bring the load to 7 of 13; the
  next set rehashes.  The rehash moves slot 0, then slot 1, whose key compares equal to the
  one just moved, so its value 200 replaces 300: get(13) gives 200 afterwards.
\<close>

theorem rehash_keeps_value_of_later_slot:
  "from_new 2 example_policy
       [Call_set 0 100, Call_set 13 200, Call_remove 0, Call_set 13 300, Call_set 2 20,
        Call_set 3 30, Call_set 4 40, Call_set 5 50] = Returns example_twice_loaded
   \<and> reserved example_twice_loaded = 13 \<and> load example_twice_loaded = 7
   \<and> used_entries example_twice_loaded
        = [(13, 300), (13, 200), (2, 20), (3, 30), (4, 40), (5, 50)]
   \<and> fst (basic_hash_table_get example_policy example_twice_loaded 13 (Some 0)) = 1
   \<and> fst (snd (basic_hash_table_get example_policy example_twice_loaded 13 (Some 0))) = Some 300
   \<and> basic_hash_table_set 2 example_policy example_twice_loaded 6 60
        = Returns (1, example_twice_rehashed)
   \<and> reserved example_twice_rehashed = 17 \<and> load example_twice_rehashed = 6
   \<and> used_entries example_twice_rehashed
        = [(2, 20), (3, 30), (4, 40), (5, 50), (6, 60), (13, 200)]
   \<and> fst (basic_hash_table_get example_policy example_twice_rehashed 13 (Some 0)) = 1
   \<and> fst (snd (basic_hash_table_get example_policy example_twice_rehashed 13 (Some 0)))
        = Some 200"
  by code_simp

text \<open>
  C2.  With capacity 13 and the key as its hash, keys 0 and 13 probe slot 0 first.  After
  set(0), set(13), remove(0), set(13, 300) the key 13 is in slot 0 and in slot 1;
  remove(13) returns 1 and deletes slot 0 only, and the lookup of 13 that follows returns
  1 with the value 200 of slot 1.
\<close>

theorem get_after_remove_finds_second_slot:
  "from_new 2 example_policy
       [Call_set 0 100, Call_set 13 200, Call_remove 0, Call_set 13 300] = Returns example_twice
   \<and> used_entries example_twice = [(13, 300), (13, 200)]
   \<and> basic_hash_table_remove example_policy example_twice 13 None
        = (1, None, example_twice_removed)
   \<and> used_entries example_twice_removed = [(13, 200)]
   \<and> fst (basic_hash_table_get example_policy example_twice_removed 13 (Some 0)) = 1
   \<and> fst (snd (basic_hash_table_get example_policy example_twice_removed 13 (Some 0)))
        = Some 200"
  by code_simp

subsection \<open>The rehash as a list of insertions\<close>

lemma pending_step:
  "i < oldsize \<Longrightarrow> pending old_k old_v old_f i oldsize =
     (if old_f ! i = HASH_ELEM_USED then [(old_k ! i, old_v ! i)] else [])
       @ pending old_k old_v old_f (Suc i) oldsize"
  by (simp add: pending_def upt_conv_Cons)

lemma pending_end: "\<not> i < oldsize \<Longrightarrow> pending old_k old_v old_f i oldsize = []"
  by (simp add: pending_def)

lemma rehash_loop_insert_all:
  "rehash_loop ins t old_k old_v old_f i oldsize
     = insert_all ins t (pending old_k old_v old_f i oldsize)"
proof (induction ins t old_k old_v old_f i oldsize rule: rehash_loop.induct)
  case (1 ins t old_k old_v old_f i oldsize)
  show ?case
  proof (cases "i < oldsize")
    case False
    then show ?thesis by (subst rehash_loop.simps) (simp add: pending_end)
  next
    case lt: True
    show ?thesis
    proof (cases "old_f ! i = HASH_ELEM_USED")
      case False
      with lt "1.IH"(2) show ?thesis
        by (subst rehash_loop.simps) (simp add: pending_step)
    next
      case True
      have "bind_outcome m (\<lambda>(r, t'). rehash_loop ins t' old_k old_v old_f (i + 1) oldsize)
          = bind_outcome m (\<lambda>(r, t'). insert_all ins t' (pending old_k old_v old_f (Suc i) oldsize))"
        for m
        using "1.IH"(1)[OF lt True] by (cases m) auto
      with lt True show ?thesis
        by (subst rehash_loop.simps) (simp add: pending_step)
    qed
  qed
qed

lemma used_entries_pending: "used_entries t = pending (keys t) (vals t) (flags t) 0 (reserved t)"
  by (simp add: used_entries_def pending_def)

lemma rehash_with_insert_all:
  "rehash_with ins pol t (reserved t) newsize
     = insert_all ins (fresh_storage pol t newsize) (used_entries t)"
  by (simp add: rehash_with_def rehash_loop_insert_all used_entries_pending)

lemma insert_all_Cons_Returns:
  "insert_all ins t ((k, v) # es) = Returns t' \<longleftrightarrow>
     (\<exists>r t1. ins t k v True = Returns (r, t1) \<and> insert_all ins t1 es = Returns t')"
  by (auto simp: bind_outcome_Returns)

lemma insert_all_rule:
  assumes "\<And>t k v r t'. I t \<Longrightarrow> ins t k v True = Returns (r, t') \<Longrightarrow> I t' \<and> load t' \<le> load t + 1"
  shows "I t \<Longrightarrow> insert_all ins t es = Returns t' \<Longrightarrow> I t' \<and> load t' \<le> load t + length es"
proof (induction es arbitrary: t)
  case Nil
  then show ?case by simp
next
  case (Cons e es)
  obtain k v where e: "e = (k, v)" by (cases e)
  from Cons.prems(2) obtain r t1 where a: "ins t k v True = Returns (r, t1)"
    and b: "insert_all ins t1 es = Returns t'"
    unfolding e insert_all_Cons_Returns by blast
  from assms[OF Cons.prems(1) a] have "I t1" "load t1 \<le> load t + 1" by auto
  with Cons.IH[OF this(1) b] show ?case by simp
qed

subsection \<open>The load\<close>

lemma length_filter_update: "length (filter P (xs[s := x])) \<le> length (filter P xs) + 1"
proof (induction xs arbitrary: s)
  case Nil
  then show ?case by simp
next
  case (Cons a xs)
  then show ?case by (cases s) (auto simp: le_SucI)
qed

lemma length_filter_update_not: "\<not> P x \<Longrightarrow> length (filter P (xs[s := x])) \<le> length (filter P xs)"
proof (induction xs arbitrary: s)
  case Nil
  then show ?case by simp
next
  case (Cons a xs)
  then show ?case by (cases s) (auto simp: le_SucI)
qed

lemma length_filter_nth:
  "length (filter (\<lambda>s. P (xs ! s)) [0..<length xs]) = length (filter P xs)"
proof -
  have "filter P xs = filter P (map (\<lambda>s. xs ! s) [0..<length xs])" by (simp add: map_nth)
  also have "\<dots> = map (\<lambda>s. xs ! s) (filter (\<lambda>s. P (xs ! s)) [0..<length xs])"
    by (simp add: filter_map o_def)
  finally show ?thesis by (metis length_map)
qed

lemma length_used_entries: "wf_len t \<Longrightarrow> length (used_entries t) = count_used t"
  using length_filter_nth[of "\<lambda>f. f = HASH_ELEM_USED" "flags t"]
  by (simp add: used_entries_def count_used_def wf_len_def)

lemma count_used_place_fresh: "count_used (place_fresh t key val reset s) \<le> count_used t + 1"
  using length_filter_update[of "\<lambda>f. f = HASH_ELEM_USED" "flags t" s HASH_ELEM_USED]
  by (simp add: count_used_def)

lemma count_used_replace_value:
  "flags t ! s = HASH_ELEM_USED \<Longrightarrow> count_used (replace_value t val s) = count_used t"
  using list_update_id[of "flags t" s] by (simp add: count_used_def)

lemma count_used_fresh_storage [simp]: "count_used (fresh_storage pol t n) = 0"
  by (simp add: count_used_def)

lemma set_scan_load:
  assumes "set_scan pol t key val reset i = Some (r, t')" "count_used t \<le> load t"
  shows "count_used t' \<le> load t' \<and> load t' \<le> load t + 1"
  using assms(1)
proof (rule set_scan_result)
  fix j
  assume fresh: "flags t ! slot_at pol t key j \<noteq> HASH_ELEM_USED \<Longrightarrow>
       r = 1 \<and> t' = place_fresh t key val reset (slot_at pol t key j)"
    and match: "flags t ! slot_at pol t key j = HASH_ELEM_USED \<Longrightarrow>
       r = 0 \<and> t' = replace_value t val (slot_at pol t key j)
       \<and> compar pol key (keys t ! slot_at pol t key j) = 0"
  show ?thesis
  proof (cases "flags t ! slot_at pol t key j = HASH_ELEM_USED")
    case True
    with match assms(2) show ?thesis by (simp add: count_used_replace_value)
  next
    case False
    with fresh assms(2) count_used_place_fresh[of t key val reset "slot_at pol t key j"]
    show ?thesis by simp
  qed
qed

lemma set_from_load:
  "wf_len t \<Longrightarrow> count_used t \<le> load t \<Longrightarrow> set_from n e pol t key val reset = Returns (r, t')
   \<Longrightarrow> (wf_len t' \<and> count_used t' \<le> load t') \<and> load t' \<le> load t + 1"
proof (induction n arbitrary: e t key val reset r t')
  case 0
  then show ?case by simp
next
  case (Suc n)
  let ?I = "\<lambda>t. wf_len t \<and> count_used t \<le> load t"
  have rh: "?I t1 \<and> load t1 \<le> count_used t"
    if "rehash_with (set_from n True pol) pol t (reserved t) c = Returns t1" for c t1
  proof -
    have "?I t1 \<and> load t1 \<le> load (fresh_storage pol t c) + length (used_entries t)"
    proof (rule insert_all_rule[where I = ?I and ins = "set_from n True pol"])
      show "?I (fresh_storage pol t c)" by simp
      show "insert_all (set_from n True pol) (fresh_storage pol t c) (used_entries t) = Returns t1"
        using that by (simp only: rehash_with_insert_all)
      show "?I b \<and> load b \<le> load a + 1"
        if "?I a" "set_from n True pol a k v True = Returns (x, b)" for a k v x b
        using Suc.IH[of a True k v True x b] that by blast
    qed
    with Suc.prems(1) show ?thesis by (simp add: length_used_entries)
  qed
  have rest: ?case
    if a: "rehash_with (set_from n True pol) pol t (reserved t) c = Returns t1"
      and b: "set_from n False pol t1 key val reset = Returns (r, t')" for c t1
  proof -
    from rh[OF a] have t1: "wf_len t1" "count_used t1 \<le> load t1" "load t1 \<le> count_used t"
      by auto
    from Suc.IH[OF t1(1,2) b] t1(3) Suc.prems(2) show ?thesis by simp
  qed
  show ?case
  proof (cases "e \<and> load t > reserved t div 2")
    case True
    with Suc.prems(3) obtain t1 where
      "rehash_with (set_from n True pol) pol t (reserved t) (next_prime_size (reserved t)) = Returns t1"
      "set_from n False pol t1 key val reset = Returns (r, t')"
      by (auto simp: bind_outcome_Returns split: if_splits)
    then show ?thesis by (rule rest)
  next
    case False
    show ?thesis
    proof (cases "set_scan pol t key val reset 0")
      case (Some x)
      with False Suc.prems(3) have "set_scan pol t key val reset 0 = Some (r, t')"
        by (auto split: if_splits)
      with Suc.prems(1,2) set_scan_load[of pol t key val reset 0 r t']
        set_scan_wf_len[of pol t key val reset 0 r t']
      show ?thesis by simp
    next
      case None
      with False Suc.prems(3) obtain t1 where
        "rehash_with (set_from n True pol) pol t (reserved t) (next_prime_size (reserved t)) = Returns t1"
        "set_from n False pol t1 key val reset = Returns (r, t')"
        by (auto simp: bind_outcome_Returns split: if_splits)
      then show ?thesis by (rule rest)
    qed
  qed
qed

subsection \<open>The invariant of the tables\<close>

lemma next_prime_size_step: "capacity_ok c \<Longrightarrow> c + 2 \<le> next_prime_size c"
  unfolding next_prime_size_cases capacity_ok_def primes_def by auto

lemma next_prime_size_capacity_ok: "capacity_ok c \<Longrightarrow> capacity_ok (next_prime_size c)"
proof (cases "349 \<le> c")
  case True
  with next_prime_size_greater[of c] show ?thesis by (simp add: capacity_ok_def)
next
  case False
  assume "capacity_ok c"
  with False show ?thesis
    unfolding next_prime_size_cases capacity_ok_def primes_def by auto
qed

lemma capacity_ok_ge: "capacity_ok c \<Longrightarrow> 13 \<le> c"
  unfolding capacity_ok_def primes_def by auto

lemma set_from_capacity_ok:
  assumes "set_from n e pol t key val reset = Returns (r, t')" "capacity_ok (reserved t)"
  shows "capacity_ok (reserved t')"
  using assms(2)
proof (rule set_from_invariant[where P = "\<lambda>x. capacity_ok (reserved x)", rotated 2])
  show "set_from n e pol t key val reset = Returns (r, t')" by fact
next
  fix a k v rs x b
  assume "capacity_ok (reserved a)" "set_scan pol a k v rs 0 = Some (x, b)"
  then show "capacity_ok (reserved b)" by (simp add: set_scan_reserved)
next
  fix a :: "('a, 'b) basic_hash_table"
  assume "capacity_ok (reserved a)"
  then show "capacity_ok (reserved (fresh_storage pol a (next_prime_size (reserved a))))"
    by (simp add: next_prime_size_capacity_ok)
qed

lemma rehash_with_reserved:
  assumes "rehash_with (set_from n True pol) pol t oldsize newsize = Returns t1"
  shows "newsize \<le> reserved t1"
  using assms unfolding rehash_with_def
  by (rule rehash_loop_invariant[where P = "\<lambda>x. newsize \<le> reserved x", rotated])
     (use set_from_reserved in \<open>fastforce+\<close>)

lemma rehash_with_load:
  assumes "rehash_with (set_from n True pol) pol t (reserved t) c = Returns t1" "wf_len t"
  shows "wf_len t1 \<and> count_used t1 \<le> load t1 \<and> load t1 \<le> count_used t"
proof -
  let ?I = "\<lambda>t. wf_len t \<and> count_used t \<le> load t"
  have "?I t1 \<and> load t1 \<le> load (fresh_storage pol t c) + length (used_entries t)"
  proof (rule insert_all_rule[where I = ?I and ins = "set_from n True pol"])
    show "?I (fresh_storage pol t c)" by simp
    show "insert_all (set_from n True pol) (fresh_storage pol t c) (used_entries t) = Returns t1"
      using assms(1) by (simp only: rehash_with_insert_all)
    show "?I b \<and> load b \<le> load a + 1"
      if "?I a" "set_from n True pol a k v True = Returns (x, b)" for a k v x b
      using set_from_load[of a n True pol k v True x b] that by blast
  qed
  with assms(2) show ?thesis by (simp add: length_used_entries)
qed

lemma set_from_table_inv:
  assumes inv: "table_inv t" and ret: "set_from n True pol t key val reset = Returns (r, t')"
  shows "table_inv t'"
proof -
  from inv have wf: "wf_len t" and cap: "capacity_ok (reserved t)" and cu: "count_used t \<le> load t"
    and ld: "load t \<le> reserved t div 2 + 1" by (auto simp: table_inv_def)
  from set_from_load[OF wf cu ret] have wf': "wf_len t'" and cu': "count_used t' \<le> load t'"
    and ld': "load t' \<le> load t + 1" by auto
  from set_from_reserved[OF ret] have res: "reserved t \<le> reserved t'" .
  obtain m where n: "n = Suc m" using ret by (cases n) auto
  have "load t' \<le> reserved t' div 2 + 1"
  proof (cases "load t > reserved t div 2")
    case False
    with ld' res show ?thesis by (auto intro: le_trans[OF _ div_le_mono])
  next
    case True
    with ret obtain t1 where
      a: "rehash_with (set_from m True pol) pol t (reserved t) (next_prime_size (reserved t)) = Returns t1"
      and b: "set_from m False pol t1 key val reset = Returns (r, t')"
      unfolding n by (auto simp: bind_outcome_Returns split: if_splits)
    from rehash_with_load[OF a wf] have t1: "wf_len t1" "count_used t1 \<le> load t1"
      "load t1 \<le> count_used t" by auto
    from set_from_load[OF t1(1,2) b] have "load t' \<le> load t1 + 1" by simp
    moreover have "reserved t + 2 \<le> reserved t'"
      using rehash_with_reserved[OF a] set_from_reserved[OF b] next_prime_size_step[OF cap]
      by simp
    then have "reserved t div 2 + 1 \<le> reserved t' div 2"
      by arith
    ultimately show ?thesis using t1(3) cu ld by simp
  qed
  with wf' cu' set_from_capacity_ok[OF ret cap] show ?thesis by (simp add: table_inv_def)
qed

lemma table_inv_calls [simp]: "table_inv (t\<lparr>calls := c\<rparr>) = table_inv t"
  by (simp add: table_inv_def wf_len_def count_used_def)

lemma get_inner_cases:
  assumes "basic_hash_table_get_inner pol t key out = (r, out', ix, t')"
  shows "ix = get_scan pol t key 0 \<and> (\<exists>c. t' = t\<lparr>calls := c\<rparr>)
     \<and> (case get_scan pol t key 0 of
          None \<Rightarrow> r = 0 \<and> out' = out \<and> t' = t
        | Some s \<Rightarrow> r = 1 \<and> out' = map_option (\<lambda>b. vals t ! s) out)"
proof (cases "get_scan pol t key 0")
  case None
  with assms have "r = 0 \<and> out' = out \<and> ix = None \<and> t' = t"
    by (simp add: basic_hash_table_get_inner_def)
  then show ?thesis using None by (auto intro: exI[of _ "calls t"])
next
  case gs: (Some s)
  show ?thesis
  proof (cases out)
    case None
    with assms gs have "r = 1 \<and> out' = None \<and> ix = Some s \<and> t' = t"
      by (simp add: basic_hash_table_get_inner_def)
    then show ?thesis using gs None by (auto intro: exI[of _ "calls t"])
  next
    case (Some b)
    with assms gs
    have *: "r = 1" "out' = Some (vals t ! s)" "ix = Some s"
      "t' = t\<lparr>calls := calls t @ [Assign_value Caller (Some (vals t ! s)) (Some (vals t ! s))]\<rparr>"
      by (auto simp add: basic_hash_table_get_inner_def Let_def)
    from *(4) have "\<exists>c. t' = t\<lparr>calls := c\<rparr>" by blast
    with * show ?thesis using Some gs by simp
  qed
qed

lemma get_table_inv:
  assumes "basic_hash_table_get pol t key out = (r, out', t')" "table_inv t"
  shows "table_inv t'"
proof -
  obtain ix where "basic_hash_table_get_inner pol t key out = (r, out', ix, t')"
    using assms(1) by (auto simp: basic_hash_table_get_def split: prod.splits)
  from get_inner_cases[OF this] obtain c where "t' = t\<lparr>calls := c\<rparr>" by blast
  with assms(2) show ?thesis by simp
qed

lemma remove_table_inv:
  assumes "basic_hash_table_remove pol t key out = (r, out', t')" "table_inv t"
  shows "table_inv t'"
proof -
  obtain r1 o1 ix t1 where g: "basic_hash_table_get_inner pol t key out = (r1, o1, ix, t1)"
    by (metis prod_cases4)
  from get_inner_cases[OF g] obtain c where t1: "t1 = t\<lparr>calls := c\<rparr>" by blast
  show ?thesis
  proof (cases ix)
    case None
    with assms g t1 show ?thesis by (auto simp: basic_hash_table_remove_def)
  next
    case (Some s)
    with assms(1) g have "flags t' = (flags t1)[s := HASH_ELEM_DELETED]" "load t' = load t1"
      "reserved t' = reserved t1" "length (keys t') = length (keys t1)"
      "length (vals t') = length (vals t1)"
      by (auto simp: basic_hash_table_remove_def Let_def)
    moreover have "length (filter (\<lambda>f. f = HASH_ELEM_USED) ((flags t1)[s := HASH_ELEM_DELETED]))
        \<le> length (filter (\<lambda>f. f = HASH_ELEM_USED) (flags t1))"
      by (rule length_filter_update_not) simp
    ultimately show ?thesis using assms(2) t1
      by (simp add: table_inv_def wf_len_def count_used_def)
  qed
qed

lemma next_table_inv:
  "basic_hash_table_next t iter key val = (iter', key', val', t') \<Longrightarrow> table_inv t \<Longrightarrow> table_inv t'"
  by (auto simp: basic_hash_table_next_def Let_def split: if_splits)

lemma rehash_loop_empty: "rehash_loop ins t old_k old_v old_f 0 0 = Returns t"
  by (subst rehash_loop.simps) simp

lemma new_table: "basic_hash_table_new n pol = Returns (fresh_storage pol
     \<lparr>reserved = 0, load = 0, keys = [], vals = [], flags = [], calls = []\<rparr> 13)"
  by (simp add: basic_hash_table_new_def basic_hash_table_rehash_def rehash_with_def
      rehash_loop_empty primes_def)

lemma new_table_inv: "basic_hash_table_new n pol = Returns t \<Longrightarrow> table_inv t"
  by (auto simp: new_table table_inv_def capacity_ok_def primes_def)

lemma reachable_table_inv: "reachable pol t \<Longrightarrow> table_inv t"
proof (induction rule: reachable.induct)
  case (after_new n t)
  then show ?case by (rule new_table_inv)
next
  case (after_set t n key val r t')
  then show ?case
    by (auto simp: basic_hash_table_set_def basic_hash_table_set_inner_def
        intro: set_from_table_inv)
next
  case (after_get t key out r out' t')
  then show ?case by (auto intro: get_table_inv)
next
  case (after_remove t key out r out' t')
  then show ?case by (auto intro: remove_table_inv)
next
  case (after_next t iter key val iter' key' val' t')
  then show ?case by (auto intro: next_table_inv)
qed

text \<open>
  C4, as the code has it.  A table that the interface has produced has
  \<open>load \<le> reserved div 2 + 1\<close>: set tests the load before it inserts, so the insertion that
  follows the test can pass the half by one.  The table after every set and every remove is
  such a table.
\<close>

theorem load_at_most_half_plus_one:
  "reachable pol t \<Longrightarrow> load t \<le> reserved t div 2 + 1"
  by (drule reachable_table_inv) (simp add: table_inv_def)

subsection \<open>Runs\<close>

lemma run_append:
  "run n pol (xs @ ys) t = bind_outcome (run n pol xs t) (run n pol ys)"
proof (induction xs arbitrary: t)
  case Nil
  then show ?case by simp
next
  case (Cons x xs)
  show ?case
  proof (cases x)
    case (Call_set k v)
    then show ?thesis using Cons.IH
      by (cases "basic_hash_table_set n pol t k v") (auto split: prod.splits)
  next
    case (Call_remove k)
    then show ?thesis using Cons.IH by (auto split: prod.splits)
  next
    case (Call_get k)
    then show ?thesis using Cons.IH by (auto split: prod.splits)
  qed
qed

lemma reachable_run: "reachable pol t \<Longrightarrow> run n pol ops t = Returns t' \<Longrightarrow> reachable pol t'"
proof (induction ops arbitrary: t)
  case Nil
  then show ?case by simp
next
  case (Cons x ops)
  show ?case
  proof (cases x)
    case (Call_set k v)
    with Cons.prems(2) obtain r t1 where a: "basic_hash_table_set n pol t k v = Returns (r, t1)"
      and b: "run n pol ops t1 = Returns t'"
      by (auto simp: bind_outcome_Returns)
    from reachable.after_set[OF Cons.prems(1) a] Cons.IH b show ?thesis by blast
  next
    case (Call_remove k)
    obtain r out t1 where a: "basic_hash_table_remove pol t k None = (r, out, t1)"
      by (metis prod_cases3)
    with Cons.prems(2) Call_remove have b: "run n pol ops t1 = Returns t'" by simp
    from reachable.after_remove[OF Cons.prems(1) a] Cons.IH b show ?thesis by blast
  next
    case (Call_get k)
    obtain r out t1 where a: "basic_hash_table_get pol t k None = (r, out, t1)"
      by (metis prod_cases3)
    with Cons.prems(2) Call_get have b: "run n pol ops t1 = Returns t'" by simp
    from reachable.after_get[OF Cons.prems(1) a] Cons.IH b show ?thesis by blast
  qed
qed

lemma reachable_from_new: "from_new n pol ops = Returns t \<Longrightarrow> reachable pol t"
  unfolding from_new_def bind_outcome_Returns
  using reachable.after_new reachable_run by blast

theorem load_at_most_half_plus_one_witness:
  "reachable example_policy example_loaded \<and> load example_loaded = 7
   \<and> reserved example_loaded = 13
   \<and> load example_loaded \<le> reserved example_loaded div 2 + 1"
proof -
  have "from_new 2 example_policy
       [Call_set 0 100, Call_set 13 200, Call_remove 0, Call_set 2 20, Call_set 3 30,
        Call_set 4 40, Call_set 5 50, Call_set 6 60] = Returns example_loaded"
    by code_simp
  then have r: "reachable example_policy example_loaded" by (rule reachable_from_new)
  have "load example_loaded = 7" "reserved example_loaded = 13" by code_simp+
  with r load_at_most_half_plus_one[OF r] show ?thesis by simp
qed

subsection \<open>A table of even size\<close>

lemma example_slot_zero: "slot_at example_policy t 0 0 = 0"
  by (simp add: slot_at_def probe_index_def example_policy_def)

lemma no_used_flag: "no_used c l t \<Longrightarrow> s < c \<Longrightarrow> flags t ! s \<noteq> HASH_ELEM_USED"
  by (metis no_used_def nth_mem wf_len_def)

lemma no_used_entries:
  assumes "no_used c l t"
  shows "used_entries t = []"
proof -
  have "reserved t = c" using assms by (simp add: no_used_def)
  then have "\<forall>s\<in>set [0..<reserved t]. flags t ! s \<noteq> HASH_ELEM_USED"
    using no_used_flag[OF assms] by simp
  then show ?thesis by (simp add: used_entries_def filter_empty_conv)
qed

lemma set_scan_no_used:
  assumes "no_used c l t"
  shows "set_scan example_policy t 0 v False 0 = Some (1, place_fresh t 0 v False 0)"
  using set_scan_at[of 0 0 t example_policy 0 v False] assms no_used_flag[OF assms, of 0]
  by (simp add: passes_def example_slot_zero no_used_def)

lemma remove_after_place:
  assumes "no_used c l t"
  shows "\<exists>t'. basic_hash_table_remove example_policy (place_fresh t 0 v False 0) 0 None
      = (1, None, t') \<and> no_used c (l + 1) t'"
proof -
  let ?p = "place_fresh t 0 v False 0"
  from assms have c: "0 < c" "length (flags t) = c" "length (keys t) = c" "reserved t = c"
    by (auto simp: no_used_def wf_len_def)
  have cmp: "compar example_policy 0 0 = 0" by (simp add: example_policy_def)
  have "get_scan example_policy ?p 0 0 = Some (slot_at example_policy ?p 0 0)"
    using c cmp by (intro get_scan_hit) (simp_all add: example_slot_zero)
  then have g: "get_scan example_policy ?p 0 0 = Some 0" by (simp add: example_slot_zero)
  have "HASH_ELEM_USED \<notin> set ((flags t)[0 := HASH_ELEM_USED, 0 := HASH_ELEM_DELETED])"
    using assms by (auto simp: no_used_def dest!: set_update_subset_insert[THEN subsetD])
  then show ?thesis using assms
    by (simp add: basic_hash_table_remove_def basic_hash_table_get_inner_def g Let_def
        no_used_def wf_len_def)
qed

lemma cycle_no_used:
  assumes "no_used c l t"
  shows "\<exists>t'. run (Suc (Suc n)) example_policy [Call_set 0 v, Call_remove 0] t = Returns t'
     \<and> no_used (fst (grow_step (c, l))) (snd (grow_step (c, l))) t'"
proof (cases "l \<le> c div 2")
  case True
  with assms have "\<not> (True \<and> load t > reserved t div 2)" by (simp add: no_used_def)
  then have "basic_hash_table_set (Suc (Suc n)) example_policy t 0 v
      = Returns (1, place_fresh t 0 v False 0)"
    unfolding basic_hash_table_set_def basic_hash_table_set_inner_def
    by (rule set_from_no_rehash) (rule set_scan_no_used[OF assms])
  with remove_after_place[OF assms, of v] True show ?thesis
    by (auto simp: grow_step_def)
next
  case False
  let ?f = "fresh_storage example_policy t (next_prime_size (reserved t))"
  from assms have res: "reserved t = c" "load t = l" by (auto simp: no_used_def)
  have f: "no_used (next_prime_size c) 0 ?f"
    using next_prime_size_greater[of c] res by (simp add: no_used_def)
  have rh: "rehash_with (set_from (Suc n) True example_policy) example_policy t (reserved t)
      (next_prime_size (reserved t)) = Returns ?f"
    by (simp add: rehash_with_insert_all no_used_entries[OF assms])
  have "set_from (Suc n) False example_policy ?f 0 v False = Returns (1, place_fresh ?f 0 v False 0)"
    by (rule set_from_no_rehash) (simp, rule set_scan_no_used[OF f])
  with rh False res have "basic_hash_table_set (Suc (Suc n)) example_policy t 0 v
      = Returns (1, place_fresh ?f 0 v False 0)"
    unfolding basic_hash_table_set_def basic_hash_table_set_inner_def
    by (subst set_from.simps) simp
  with remove_after_place[OF f, of v] False show ?thesis
    by (auto simp: grow_step_def)
qed

lemma cycles_no_used:
  assumes "no_used c l t"
  shows "\<exists>t'. run (Suc (Suc n)) example_policy
        (concat (replicate m [Call_set 0 v, Call_remove 0])) t = Returns t'
     \<and> no_used (fst ((grow_step ^^ m) (c, l))) (snd ((grow_step ^^ m) (c, l))) t'"
  using assms
proof (induction m arbitrary: c l t)
  case 0
  then show ?case by simp
next
  case (Suc m)
  from cycle_no_used[OF Suc.prems, of n v] obtain t1 where
    a: "run (Suc (Suc n)) example_policy [Call_set 0 v, Call_remove 0] t = Returns t1"
    and b: "no_used (fst (grow_step (c, l))) (snd (grow_step (c, l))) t1" by blast
  from Suc.IH[OF b] obtain t' where
    c: "run (Suc (Suc n)) example_policy
        (concat (replicate m [Call_set 0 v, Call_remove 0])) t1 = Returns t'"
    and d: "no_used (fst ((grow_step ^^ m) (grow_step (c, l))))
        (snd ((grow_step ^^ m) (grow_step (c, l)))) t'" by auto
  have "run (Suc (Suc n)) example_policy
        (concat (replicate (Suc m) [Call_set 0 v, Call_remove 0])) t = Returns t'"
    using a c run_append[of "Suc (Suc n)" example_policy "[Call_set 0 v, Call_remove 0]"
        "concat (replicate m [Call_set 0 v, Call_remove 0])" t]
    by simp
  with d show ?case by (auto simp: funpow_swap1)
qed

lemma grow_step_fill: "l + k \<le> c div 2 + 1 \<Longrightarrow> (grow_step ^^ k) (c, l) = (c, l + k)"
proof (induction k)
  case 0
  then show ?case by simp
next
  case (Suc k)
  then show ?case by (simp add: grow_step_def)
qed

lemma grow_step_size: "(grow_step ^^ (c div 2 + 1)) (c, 1) = (next_prime_size c, 1)"
proof -
  have "(grow_step ^^ (c div 2)) (c, 1) = (c, 1 + c div 2)"
    by (rule grow_step_fill) simp
  then show ?thesis by (simp add: grow_step_def)
qed

lemma grow_step_size0: "(grow_step ^^ (c div 2 + 2)) (c, 0) = (next_prime_size c, 1)"
proof -
  have "(grow_step ^^ (c div 2 + 1)) (c, 0) = (c, 0 + (c div 2 + 1))"
    by (rule grow_step_fill) simp
  then show ?thesis by (simp add: grow_step_def)
qed

lemma grow_step_777: "(grow_step ^^ 777) (13, 0) = (524, 262)"
proof -
  have a: "(grow_step ^^ 8) (13, 0) = (17, 1)"
    using grow_step_size0[of 13] by (simp add: next_prime_size_cases)
  have b: "(grow_step ^^ 9) (17, 1) = (29, 1)" "(grow_step ^^ 15) (29, 1) = (47, 1)"
    "(grow_step ^^ 24) (47, 1) = (61, 1)" "(grow_step ^^ 31) (61, 1) = (97, 1)"
    "(grow_step ^^ 49) (97, 1) = (157, 1)" "(grow_step ^^ 79) (157, 1) = (251, 1)"
    "(grow_step ^^ 126) (251, 1) = (349, 1)" "(grow_step ^^ 175) (349, 1) = (524, 1)"
    using grow_step_size[of 17] grow_step_size[of 29] grow_step_size[of 47]
      grow_step_size[of 61] grow_step_size[of 97] grow_step_size[of 157]
      grow_step_size[of 251] grow_step_size[of 349]
    by (simp_all add: next_prime_size_cases)
  have c: "(grow_step ^^ 261) (524, 1) = (524, 262)"
    using grow_step_fill[of 1 261 524] by simp
  have "(grow_step ^^ (261 + (175 + (126 + (79 + (49 + (31 + (24 + (15 + (9 + 8))))))))))
      (13, 0) = (524, 262)"
    by (simp only: funpow_add o_apply a b c)
  then show ?thesis by simp
qed

lemma example_grown_run:
  "\<exists>t. from_new 2 example_policy
       (concat (replicate 777 [Call_set 0 0, Call_remove 0]) @ [Call_set 0 0]) = Returns t
     \<and> reserved t = 524 \<and> load t = 263"
proof -
  have "no_used 13 0 example_empty" by (simp add: no_used_def wf_len_def example_empty_def)
  from cycles_no_used[OF this, where n = 0 and v = 0 and m = 777] obtain t1 where
    a: "run (Suc (Suc 0)) example_policy
          (concat (replicate 777 [Call_set 0 0, Call_remove 0])) example_empty
        = Returns t1" and b: "no_used 524 262 t1"
    unfolding grow_step_777 fst_conv snd_conv by blast
  from a have a: "run 2 example_policy
          (concat (replicate 777 [Call_set 0 0, Call_remove 0])) example_empty = Returns t1"
    by (simp only: numeral_2_eq_2)
  from b have "\<not> (True \<and> load t1 > reserved t1 div 2)" by (simp add: no_used_def)
  then have "basic_hash_table_set (Suc (Suc 0)) example_policy t1 0 0
      = Returns (1, place_fresh t1 0 0 False 0)"
    unfolding basic_hash_table_set_def basic_hash_table_set_inner_def
    by (rule set_from_no_rehash) (rule set_scan_no_used[OF b])
  then have "basic_hash_table_set 2 example_policy t1 0 0 = Returns (1, place_fresh t1 0 0 False 0)"
    by (simp only: numeral_2_eq_2)
  then have "run 2 example_policy [Call_set 0 0] t1 = Returns (place_fresh t1 0 0 False 0)"
    by simp
  with a have "run 2 example_policy
      (concat (replicate 777 [Call_set 0 0, Call_remove 0]) @ [Call_set 0 0]) example_empty
      = Returns (place_fresh t1 0 0 False 0)"
    by (simp add: run_append)
  moreover have "basic_hash_table_new 2 example_policy = Returns example_empty"
    by (simp add: new_table example_empty_def example_policy_def fresh_storage_def)
  ultimately have "from_new 2 example_policy
      (concat (replicate 777 [Call_set 0 0, Call_remove 0]) @ [Call_set 0 0])
      = Returns (place_fresh t1 0 0 False 0)"
    by (simp add: from_new_def)
  moreover have "reserved (place_fresh t1 0 0 False 0) = 524 \<and> load (place_fresh t1 0 0 False 0) = 263"
    using b by (simp add: no_used_def)
  ultimately show ?thesis by blast
qed

text \<open>
  C4 as it is worded fails at an even size.  Sets and removes of one key raise the load
  by one each round and the size from 13 to 524.  At size 524 the set that finds the
  load at 262 does not rehash and leaves it at 263, above the half however it is rounded.
\<close>

theorem load_at_most_half_counterexample:
  "from_new 2 example_policy
       (concat (replicate 777 [Call_set 0 0, Call_remove 0]) @ [Call_set 0 0])
     = Returns example_grown
   \<and> reserved example_grown = 524 \<and> load example_grown = 263
   \<and> \<not> load example_grown \<le> (reserved example_grown + 1) div 2"
proof -
  from example_grown_run obtain t where t: "from_new 2 example_policy
       (concat (replicate 777 [Call_set 0 0, Call_remove 0]) @ [Call_set 0 0]) = Returns t"
    "reserved t = 524" "load t = 263" by blast
  then have "example_grown = t" by (simp add: example_grown_def returned_def)
  with t show ?thesis by simp
qed

subsection \<open>The probes of a large table\<close>

lemma mod_inj_small:
  fixes x y c :: nat
  assumes "x \<le> y" "y - x < c" "x mod c = y mod c"
  shows "x = y"
proof -
  have "c dvd y - x" using mod_eq_dvd_iff_nat[OF assms(1), of c] assms(3) by simp
  with assms(2) have "y - x = 0"
    using dvd_imp_le[of c "y - x"] by (cases "y - x = 0") auto
  with assms(1) show ?thesis by simp
qed

lemma unat_hash_plus: "unat (h + word_of_nat x :: 64 word) = (unat h + x) mod 2 ^ 64"
proof -
  have "unat (h + word_of_nat x :: 64 word) = (unat h + x mod 2 ^ 64) mod 2 ^ 64"
    by (simp only: unat_word_ariths unat_of_nat) simp
  then show ?thesis by (simp only: mod_add_right_eq)
qed

lemma probe_index_sum: "probe_index h i c = ((unat h + i * i) mod 2 ^ 64) mod c"
  unfolding probe_index_def by (simp only: unat_hash_plus)

lemma wrap_distinct:
  fixes M a x y c :: nat
  assumes "a < M" "x < y" "y < c" "y \<le> M" "(a + x < M) = (a + y < M)"
  shows "((a + x) mod M) mod c \<noteq> ((a + y) mod M) mod c"
proof
  assume eq: "((a + x) mod M) mod c = ((a + y) mod M) mod c"
  show False
  proof (cases "a + y < M")
    case True
    with assms(5) have "(a + x) mod M = a + x" "(a + y) mod M = a + y" by simp_all
    with eq have "(a + x) mod c = (a + y) mod c" by simp
    moreover have "a + x \<le> a + y" "(a + y) - (a + x) < c" using assms(2,3) by simp_all
    ultimately have "a + x = a + y" by (rule mod_inj_small[rotated 2])
    with assms(2) show False by simp
  next
    case False
    with assms(5) have nx: "\<not> a + x < M" by simp
    have "(a + y) mod M = (a + y - M) mod M" using False by (simp add: le_mod_geq)
    moreover have "a + y - M < M" using assms(1,4) by linarith
    ultimately have y: "(a + y) mod M = a + y - M" by simp
    have "(a + x) mod M = (a + x - M) mod M" using nx by (simp add: le_mod_geq)
    moreover have "a + x - M < M" using assms(1,2,4) by linarith
    ultimately have x: "(a + x) mod M = a + x - M" by simp
    from eq have "(a + x - M) mod c = (a + y - M) mod c" by (simp only: x y)
    moreover have "a + x - M \<le> a + y - M" using assms(2) by linarith
    moreover have "(a + y - M) - (a + x - M) < c" using assms(2,3) nx by linarith
    ultimately have "a + x - M = a + y - M" by (rule mod_inj_small[rotated 2])
    with nx assms(2) show False by linarith
  qed
qed

lemma probe_distinct:
  assumes ij: "i < j" and jc: "j * j < c" and j64: "j * j < 2 ^ 64"
    and side: "(unat h + i * i < 2 ^ 64) = (unat h + j * j < 2 ^ 64)"
  shows "probe_index h i c \<noteq> probe_index h j c"
proof -
  have sq: "i * i < j * j" using ij by (intro mult_strict_mono) simp_all
  have h: "unat h < 2 ^ 64" using unsigned_less[of h] by simp
  have "j * j \<le> 2 ^ 64" using j64 by (rule less_imp_le)
  then show ?thesis unfolding probe_index_sum by (rule wrap_distinct[OF h sq jc _ side])
qed

lemma count_used_card:
  "count_used t = card {s. s < length (flags t) \<and> flags t ! s = HASH_ELEM_USED}"
  by (simp add: count_used_def length_filter_conv_card)

lemma set_scan_finds_slot:
  assumes wf: "wf_len t" and mm: "m * m \<le> reserved t" and m32: "m \<le> 2 ^ 32"
    and few: "2 * count_used t < m"
  shows "set_scan pol t key val reset 0 \<noteq> None"
proof
  assume "set_scan pol t key val reset 0 = None"
  then have all: "\<And>j. j < reserved t \<Longrightarrow> passes pol t key j"
    by (simp add: set_scan_None_iff)
  let ?c = "reserved t" and ?h = "hash pol key"
  let ?f = "\<lambda>i. probe_index ?h i ?c"
  let ?U = "{s. s < length (flags t) \<and> flags t ! s = HASH_ELEM_USED}"
  define W where "W i \<longleftrightarrow> unat ?h + i * i < 2 ^ 64" for i
  let ?A = "{i. i < m \<and> W i}"
  let ?B = "{i. i < m \<and> \<not> W i}"
  have m1: "0 < m" using few by simp
  then have "m \<le> m * m" by simp
  with mm have mc: "m \<le> ?c" by linarith
  have sqc: "j * j < ?c" if "j < m" for j
  proof -
    have "j * j < m * m" using that by (intro mult_strict_mono) simp_all
    with mm show ?thesis by linarith
  qed
  have sq64: "j * j < 2 ^ 64" if "j < m" for j
  proof -
    have "j * j < m * m" using that by (intro mult_strict_mono) simp_all
    also have "m * m \<le> 2 ^ 32 * 2 ^ 32" using m32 by (intro mult_le_mono)
    also have "(2::nat) ^ 32 * 2 ^ 32 = 2 ^ 64" by (simp only: power_add [symmetric]) simp
    finally show ?thesis .
  qed
  have inU: "?f i \<in> ?U" if "i < m" for i
  proof -
    from that mc have "i < ?c" by simp
    from all[OF this] have "flags t ! ?f i = HASH_ELEM_USED" by (simp add: passes_def slot_at_def)
    moreover have "?f i < length (flags t)"
      using wf \<open>i < ?c\<close> by (simp add: wf_len_def probe_index_less)
    ultimately show ?thesis by simp
  qed
  have injA: "inj_on ?f ?A"
  proof (rule inj_onI)
    fix x y assume x: "x \<in> ?A" and y: "y \<in> ?A" and eq: "?f x = ?f y"
    show "x = y"
    proof (rule ccontr)
      assume "x \<noteq> y"
      then consider "x < y" | "y < x" by linarith
      then show False
      proof cases
        case 1
        from probe_distinct[OF 1 sqc sq64, of ?h] x y eq show False by (simp add: W_def)
      next
        case 2
        from probe_distinct[OF 2 sqc sq64, of ?h] x y eq show False by (simp add: W_def)
      qed
    qed
  qed
  have injB: "inj_on ?f ?B"
  proof (rule inj_onI)
    fix x y assume x: "x \<in> ?B" and y: "y \<in> ?B" and eq: "?f x = ?f y"
    show "x = y"
    proof (rule ccontr)
      assume "x \<noteq> y"
      then consider "x < y" | "y < x" by linarith
      then show False
      proof cases
        case 1
        from probe_distinct[OF 1 sqc sq64, of ?h] x y eq show False by (simp add: W_def)
      next
        case 2
        from probe_distinct[OF 2 sqc sq64, of ?h] x y eq show False by (simp add: W_def)
      qed
    qed
  qed
  have finU: "finite ?U" by simp
  have "card ?A = card (?f ` ?A)" using injA by (simp add: card_image)
  also have "\<dots> \<le> card ?U" using inU by (intro card_mono finU) auto
  finally have a: "card ?A \<le> count_used t" by (simp add: count_used_card)
  have "card ?B = card (?f ` ?B)" using injB by (simp add: card_image)
  also have "\<dots> \<le> card ?U" using inU by (intro card_mono finU) auto
  finally have b: "card ?B \<le> count_used t" by (simp add: count_used_card)
  have "?A \<union> ?B = {..<m}" by auto
  moreover have "?A \<inter> ?B = {}" by auto
  moreover have "finite ?A" "finite ?B" by simp_all
  ultimately have "card ?A + card ?B = m"
    using card_Un_disjoint[of ?A ?B] by simp
  with a b few show False by simp
qed

subsection \<open>Termination of the insertion\<close>

lemma insert_all_mono:
  assumes "\<And>t k v b x. ins t k v b = Returns x \<Longrightarrow> ins' t k v b = Returns x"
  shows "insert_all ins t es = Returns y \<Longrightarrow> insert_all ins' t es = Returns y"
proof (induction es arbitrary: t)
  case Nil
  then show ?case by simp
next
  case (Cons e es)
  obtain k v where e: "e = (k, v)" by (cases e)
  from Cons.prems obtain r t1 where a: "ins t k v True = Returns (r, t1)"
    and b: "insert_all ins t1 es = Returns y"
    unfolding e insert_all_Cons_Returns by blast
  from assms[OF a] Cons.IH[OF b] show ?case
    unfolding e insert_all_Cons_Returns by blast
qed

lemma insert_all_fuel:
  "insert_all (set_from n True pol) t es = Returns y \<Longrightarrow> n \<le> m \<Longrightarrow>
   insert_all (set_from m True pol) t es = Returns y"
  by (erule insert_all_mono[rotated]) (erule set_from_mono)

lemma set_from_entry_no_rehash:
  "\<not> load t > reserved t div 2 \<Longrightarrow>
   set_from n True pol t key val reset = set_from n False pol t key val reset"
  by (cases n) simp_all

lemma set_from_retry:
  assumes "set_scan pol t key val reset 0 = None"
    and "rehash_with (set_from n1 True pol) pol t (reserved t) (next_prime_size (reserved t))
       = Returns t1"
    and "set_from n2 False pol t1 key val reset = Returns x"
  shows "set_from (Suc (max n1 n2)) False pol t key val reset = Returns x"
proof -
  have "rehash_with (set_from (max n1 n2) True pol) pol t (reserved t)
      (next_prime_size (reserved t)) = Returns t1"
    using assms(2) by (rule rehash_with_mono) simp
  moreover have "set_from (max n1 n2) False pol t1 key val reset = Returns x"
    using assms(3) by (rule set_from_mono) simp
  ultimately show ?thesis using assms(1) by (subst set_from.simps) simp
qed

lemma set_from_entry_rehash:
  assumes "load t > reserved t div 2" "\<not> reset"
    and "rehash_with (set_from n1 True pol) pol t (reserved t) (next_prime_size (reserved t))
       = Returns t1"
    and "set_from n2 False pol t1 key val reset = Returns x"
  shows "set_from (Suc (max n1 n2)) True pol t key val reset = Returns x"
proof -
  have "rehash_with (set_from (max n1 n2) True pol) pol t (reserved t)
      (next_prime_size (reserved t)) = Returns t1"
    using assms(3) by (rule rehash_with_mono) simp
  moreover have "set_from (max n1 n2) False pol t1 key val reset = Returns x"
    using assms(4) by (rule set_from_mono) simp
  ultimately show ?thesis using assms(1,2) by (subst set_from.simps) simp
qed

lemma set_terminates_aux:
  fixes N :: nat and pol :: "('k, 'v) policy"
  assumes N: "N < 2 ^ 31"
  defines "CAP \<equiv> (2 * N + 1) * (2 * N + 1)"
  shows "\<forall>t :: ('k, 'v) basic_hash_table. CAP - reserved t = d \<longrightarrow>
     wf_len t \<and> count_used t \<le> N \<and> N \<le> reserved t div 2 + 1 \<longrightarrow>
     (\<forall>key val reset. \<exists>n r t'. set_from n False pol t key val reset = Returns (r, t')) \<and>
     (\<forall>es. count_used t \<le> load t \<longrightarrow> load t + length es \<le> N \<longrightarrow>
        (\<exists>n t'. insert_all (set_from n True pol) t es = Returns t'))"
proof (induction d rule: less_induct)
  case (less d)
  let ?hyp = "\<lambda>t :: ('k, 'v) basic_hash_table.
     wf_len t \<and> count_used t \<le> N \<and> N \<le> reserved t div 2 + 1"
  have IHQ: "\<exists>n r t'. set_from n False pol t key val reset = Returns (r, t')"
    if "CAP - reserved t < d" "?hyp t" for t key val reset
    using less.IH[OF that(1)] that(2) by blast
  have IHP: "\<exists>n t'. insert_all (set_from n True pol) t es = Returns t'"
    if "CAP - reserved t < d" "?hyp t" "count_used t \<le> load t" "load t + length es \<le> N"
    for t es
    using less.IH[OF that(1)] that(2,3,4) by blast
  have Qd: "\<exists>n r t'. set_from n False pol t key val reset = Returns (r, t')"
    if lvl: "CAP - reserved t = d" and hyp: "?hyp t" for t key val reset
  proof (cases "set_scan pol t key val reset 0")
    case (Some x)
    then have "set_from (Suc 0) False pol t key val reset = Returns x" by simp
    then show ?thesis by (metis surj_pair)
  next
    case None
    have small: "reserved t < CAP"
    proof (rule ccontr)
      assume "\<not> reserved t < CAP"
      then have a: "(2 * N + 1) * (2 * N + 1) \<le> reserved t" by (simp add: CAP_def)
      have b: "2 * N + 1 \<le> (2::nat) ^ 32" using N by simp
      have c: "2 * count_used t < 2 * N + 1" using hyp by simp
      from hyp have "wf_len t" by simp
      from set_scan_finds_slot[OF this a b c] None show False by blast
    qed
    let ?c = "next_prime_size (reserved t)"
    let ?f = "fresh_storage pol t ?c"
    have gt: "reserved t < ?c" by (rule next_prime_size_greater)
    have lf: "CAP - reserved ?f < d" using small gt lvl by simp
    have hf: "?hyp ?f" using hyp gt by (auto intro: le_trans[OF _ add_le_mono1[OF div_le_mono]])
    have "\<exists>n t'. insert_all (set_from n True pol) ?f (used_entries t) = Returns t'"
      using hyp by (intro IHP[OF lf hf]) (simp_all add: length_used_entries)
    then obtain n1 t1 where "insert_all (set_from n1 True pol) ?f (used_entries t) = Returns t1"
      by blast
    then have rh: "rehash_with (set_from n1 True pol) pol t (reserved t) ?c = Returns t1"
      by (simp only: rehash_with_insert_all)
    from hyp have wf: "wf_len t" by simp
    from rehash_with_load[OF rh wf] have t1: "wf_len t1" "count_used t1 \<le> load t1"
      "load t1 \<le> count_used t" by auto
    from rehash_with_reserved[OF rh] have r1: "?c \<le> reserved t1" .
    have l1: "CAP - reserved t1 < d" using small gt lvl r1 by simp
    have "reserved t div 2 \<le> reserved t1 div 2" using gt r1 by (intro div_le_mono) simp
    with hyp t1 have h1: "?hyp t1" by simp
    from IHQ[OF l1 h1] obtain n2 r t' where
      "set_from n2 False pol t1 key val reset = Returns (r, t')" by blast
    from set_from_retry[OF None rh this] show ?thesis by blast
  qed
  have Qle: "\<exists>n r t'. set_from n False pol t key val reset = Returns (r, t')"
    if "CAP - reserved t \<le> d" "?hyp t" for t key val reset
    using Qd[of t] IHQ[of t] that by (cases "CAP - reserved t = d") auto
  have Ple: "CAP - reserved t \<le> d \<Longrightarrow> ?hyp t \<Longrightarrow> count_used t \<le> load t \<Longrightarrow>
      load t + length es \<le> N \<Longrightarrow> \<exists>n t'. insert_all (set_from n True pol) t es = Returns t'"
    for t es
  proof (induction es arbitrary: t)
    case Nil
    then show ?case by simp
  next
    case (Cons e es)
    obtain k v where e: "e = (k, v)" by (cases e)
    from Qle[OF Cons.prems(1,2)] obtain n1 r t1 where
      s: "set_from n1 False pol t k v True = Returns (r, t1)" by blast
    have "\<not> load t > reserved t div 2" using Cons.prems(2,4) by simp
    with s have s': "set_from n1 True pol t k v True = Returns (r, t1)"
      by (simp add: set_from_entry_no_rehash)
    from Cons.prems(2) have wf: "wf_len t" by simp
    from set_from_load[OF wf Cons.prems(3) s] have t1: "wf_len t1" "count_used t1 \<le> load t1"
      "load t1 \<le> load t + 1" by auto
    from set_from_reserved[OF s] have r1: "reserved t \<le> reserved t1" .
    then have l1: "CAP - reserved t1 \<le> d" using Cons.prems(1) by simp
    have "reserved t div 2 \<le> reserved t1 div 2" using r1 by (rule div_le_mono)
    with Cons.prems(2,4) t1 have h1: "?hyp t1" by simp
    have "load t1 + length es \<le> N" using t1(3) Cons.prems(4) by simp
    from Cons.IH[OF l1 h1 t1(2) this] obtain n2 t' where
      i: "insert_all (set_from n2 True pol) t1 es = Returns t'" by blast
    have "set_from (max n1 n2) True pol t k v True = Returns (r, t1)"
      using s' by (rule set_from_mono) simp
    moreover have "insert_all (set_from (max n1 n2) True pol) t1 es = Returns t'"
      using i by (rule insert_all_fuel) simp
    ultimately have "insert_all (set_from (max n1 n2) True pol) t (e # es) = Returns t'"
      unfolding e insert_all_Cons_Returns by blast
    then show ?case by blast
  qed
  show ?case using Qd Ple by (intro allI impI conjI) (blast, simp)
qed

lemma set_returns:
  assumes inv: "table_inv t" and int: "load t < 2 ^ 31"
  shows "\<exists>n r t'. set_from n True pol t key val False = Returns (r, t')"
proof -
  let ?N = "count_used t"
  from inv have wf: "wf_len t" and cu: "count_used t \<le> load t"
    and ld: "load t \<le> reserved t div 2 + 1" by (auto simp: table_inv_def)
  from cu int have N: "?N < 2 ^ 31" by simp
  note aux = set_terminates_aux[OF N, of _ pol, rule_format]
  show ?thesis
  proof (cases "load t > reserved t div 2")
    case False
    from aux[of t, OF refl] wf cu ld obtain n r t' where
      "set_from n False pol t key val False = Returns (r, t')" by (metis le_refl order_trans)
    with False show ?thesis by (metis set_from_entry_no_rehash)
  next
    case True
    let ?c = "next_prime_size (reserved t)"
    let ?f = "fresh_storage pol t ?c"
    have gt: "reserved t < ?c" by (rule next_prime_size_greater)
    then have "reserved t div 2 \<le> ?c div 2" by (intro div_le_mono) simp
    with cu ld have hf: "wf_len ?f \<and> count_used ?f \<le> ?N \<and> ?N \<le> reserved ?f div 2 + 1"
      by simp
    have "\<exists>n t'. insert_all (set_from n True pol) ?f (used_entries t) = Returns t'"
      using aux[of ?f, OF refl hf] wf by (simp add: length_used_entries)
    then obtain n1 t1 where "insert_all (set_from n1 True pol) ?f (used_entries t) = Returns t1"
      by blast
    then have rh: "rehash_with (set_from n1 True pol) pol t (reserved t) ?c = Returns t1"
      by (simp only: rehash_with_insert_all)
    from rehash_with_load[OF rh wf] have t1: "wf_len t1" "count_used t1 \<le> load t1"
      "load t1 \<le> count_used t" by auto
    from rehash_with_reserved[OF rh] have r1: "?c \<le> reserved t1" .
    have "reserved t div 2 \<le> reserved t1 div 2" using gt r1 by (intro div_le_mono) simp
    with cu ld t1 have h1: "wf_len t1 \<and> count_used t1 \<le> ?N \<and> ?N \<le> reserved t1 div 2 + 1"
      by simp
    from aux[of t1, OF refl h1] obtain n2 r t' where
      "set_from n2 False pol t1 key val False = Returns (r, t')" by blast
    from set_from_entry_rehash[OF True _ rh this] show ?thesis by blast
  qed
qed




lemma example_tombstone_reachable: "reachable example_policy example_tombstone"
  using example_tombstone_run by (rule reachable_from_new)


subsection \<open>Lookup after insertion\<close>

lemma get_of_scan:
  "get_scan pol t key 0 = Some s \<Longrightarrow>
   basic_hash_table_get pol t key (Some b)
     = (1, Some (vals t ! s),
        t\<lparr>calls := calls t @ [Assign_value Caller (Some (vals t ! s)) (Some (vals t ! s))]\<rparr>)"
  by (simp add: basic_hash_table_get_def basic_hash_table_get_inner_def Let_def)

text \<open>
  C1.  On a table that the interface has produced (its load in the range of its C type),
  with a key that compares equal to itself, set returns, and after every set that returns
  the lookup of the key returns 1 and copies the value just set into the buffer.
\<close>

theorem get_after_set:
  assumes "reachable pol t" and "load t < 2 ^ 31" and "compar pol key key = 0"
  shows "(\<exists>n r t'. basic_hash_table_set n pol t key val = Returns (r, t'))
     \<and> (\<forall>n r t'. basic_hash_table_set n pol t key val = Returns (r, t') \<longrightarrow>
          fst (basic_hash_table_get pol t' key (Some b)) = 1
          \<and> fst (snd (basic_hash_table_get pol t' key (Some b))) = Some val)"
proof (intro conjI allI impI)
  from assms(1) have inv: "table_inv t" by (rule reachable_table_inv)
  from set_returns[OF inv assms(2), of pol key val]
  show "\<exists>n r t'. basic_hash_table_set n pol t key val = Returns (r, t')"
    by (simp add: basic_hash_table_set_def basic_hash_table_set_inner_def)
  fix n r t'
  assume "basic_hash_table_set n pol t key val = Returns (r, t')"
  then have s: "set_from n True pol t key val False = Returns (r, t')"
    by (simp add: basic_hash_table_set_def basic_hash_table_set_inner_def)
  from inv have "wf_len t" by (simp add: table_inv_def)
  from get_scan_after_set_from[OF this s assms(3)] obtain s where
    "get_scan pol t' key 0 = Some s" "vals t' ! s = val" by blast
  with get_of_scan[of pol t' key s b]
  show "fst (basic_hash_table_get pol t' key (Some b)) = 1"
    "fst (snd (basic_hash_table_get pol t' key (Some b))) = Some val" by simp_all
qed

theorem get_after_set_witness:
  "reachable example_policy example_tombstone \<and> load example_tombstone < 2 ^ 31
   \<and> compar example_policy 13 13 = 0
   \<and> basic_hash_table_set 1 example_policy example_tombstone 13 300
        = Returns (1, place_fresh example_tombstone 13 300 False 0)
   \<and> fst (basic_hash_table_get example_policy
             (place_fresh example_tombstone 13 300 False 0) 13 (Some 0)) = 1
   \<and> fst (snd (basic_hash_table_get example_policy
             (place_fresh example_tombstone 13 300 False 0) 13 (Some 0))) = Some 300"
proof -
  have "load example_tombstone = 2" by code_simp
  then have l: "load example_tombstone < 2 ^ 31" by simp
  have c: "compar example_policy 13 13 = 0" by code_simp
  have s: "basic_hash_table_set 1 example_policy example_tombstone 13 300
        = Returns (1, place_fresh example_tombstone 13 300 False 0)" by code_simp
  from get_after_set[OF example_tombstone_reachable l c, of 300 0] s
    example_tombstone_reachable l c
  show ?thesis by blast
qed

(*LEMMAS_END*)

end
